theory Spec2Isabelle
  imports Complex_Main
begin

section \<open>Errors\<close>

text \<open>
  The C++ exceptions thrown by the simulator sources, as values. A function that can
  throw returns \<open>sim_error + 'a\<close>, with \<open>Inl\<close> for the exception.
\<close>

datatype sim_error = invalid_argument | out_of_range | runtime_error

section \<open>Numbers\<close>

text \<open>
  Times and statistics are C++ \<open>double\<close>s. The definitions of this theory are written
  once, for a number type \<open>'t\<close> that has the operations the code uses, and are read at
  two types. At \<open>real\<close> the numbers are the finite doubles with exact arithmetic: no
  rounding, and no operation leaves the finite numbers. At \<open>double\<close>, below, the special
  values of IEEE 754 are added: the two infinities and NaN, with the arithmetic and the
  comparisons the standard gives them. The finite values of \<open>double\<close> still carry
  exact reals: rounding, the overflow of a finite result to an infinity and the sign of
  zero are not modelled.
\<close>

datatype double = Finite real | PInf | MInf | NaN

text \<open>The infinity with the sign of \<open>x\<close>; NaN when \<open>x = 0\<close>.\<close>

definition signed_infinity :: "real \<Rightarrow> double" where
  "signed_infinity x = (if x = 0 then NaN else if 0 < x then PInf else MInf)"

instantiation double :: "{zero, one, semigroup_add, minus, uminus, times, inverse, ord}"
begin

definition zero_double :: double where
  "zero_double = Finite 0"

definition one_double :: double where
  "one_double = Finite 1"

fun plus_double :: "double \<Rightarrow> double \<Rightarrow> double" where
  "plus_double NaN y = NaN"
| "plus_double x NaN = NaN"
| "plus_double (Finite x) (Finite y) = Finite (x + y)"
| "plus_double PInf MInf = NaN"
| "plus_double MInf PInf = NaN"
| "plus_double PInf y = PInf"
| "plus_double x PInf = PInf"
| "plus_double MInf y = MInf"
| "plus_double x MInf = MInf"

fun uminus_double :: "double \<Rightarrow> double" where
  "uminus_double (Finite x) = Finite (- x)"
| "uminus_double PInf = MInf"
| "uminus_double MInf = PInf"
| "uminus_double NaN = NaN"

definition minus_double :: "double \<Rightarrow> double \<Rightarrow> double" where
  "minus_double x y = x + (- y)"

fun times_double :: "double \<Rightarrow> double \<Rightarrow> double" where
  "times_double NaN y = NaN"
| "times_double x NaN = NaN"
| "times_double (Finite x) (Finite y) = Finite (x * y)"
| "times_double (Finite x) PInf = signed_infinity x"
| "times_double (Finite x) MInf = signed_infinity (- x)"
| "times_double PInf (Finite y) = signed_infinity y"
| "times_double MInf (Finite y) = signed_infinity (- y)"
| "times_double PInf PInf = PInf"
| "times_double PInf MInf = MInf"
| "times_double MInf PInf = MInf"
| "times_double MInf MInf = PInf"

fun divide_double :: "double \<Rightarrow> double \<Rightarrow> double" where
  "divide_double NaN y = NaN"
| "divide_double x NaN = NaN"
| "divide_double (Finite x) (Finite y) = (if y = 0 then signed_infinity x else Finite (x / y))"
| "divide_double (Finite x) y = Finite 0"
| "divide_double PInf (Finite y) = (if 0 \<le> y then PInf else MInf)"
| "divide_double MInf (Finite y) = (if 0 \<le> y then MInf else PInf)"
| "divide_double x y = NaN"

definition inverse_double :: "double \<Rightarrow> double" where
  "inverse_double x = divide (Finite 1) x"

fun less_eq_double :: "double \<Rightarrow> double \<Rightarrow> bool" where
  "less_eq_double NaN y = False"
| "less_eq_double x NaN = False"
| "less_eq_double (Finite x) (Finite y) = (x \<le> y)"
| "less_eq_double MInf y = True"
| "less_eq_double x PInf = True"
| "less_eq_double x y = False"

fun less_double :: "double \<Rightarrow> double \<Rightarrow> bool" where
  "less_double NaN y = False"
| "less_double x NaN = False"
| "less_double (Finite x) (Finite y) = (x < y)"
| "less_double PInf y = False"
| "less_double x MInf = False"
| "less_double x y = True"

instance
proof
  fix a b c :: double
  show "a + b + c = a + (b + c)"
    by (cases a; cases b; cases c) simp_all
qed

end

text \<open>Numerals, for the literals of the code.\<close>

instance double :: numeral ..

text \<open>
  The conversion of a count to the number type, \<open>static_cast<double>\<close> and the implicit
  conversions of \<open>int\<close> and \<open>size_t\<close> operands: \<open>n\<close> is \<open>n\<close> times 1 added to 0.
\<close>

primrec of_count :: "nat \<Rightarrow> 't::{zero,one,plus}" where
  "of_count 0 = 0"
| "of_count (Suc n) = of_count n + 1"

definition of_counter :: "int \<Rightarrow> 't::{zero,one,plus,uminus}" where
  "of_counter i = (if i < 0 then - of_count (nat (- i)) else of_count (nat i))"

section \<open>Random generators (random_generator.h)\<close>

text \<open>
  The four concrete generator classes. The standard-library distribution objects
  (\<open>std::exponential_distribution\<close>, \<open>std::uniform_real_distribution\<close>) and
  their entropy-seeded engines are not code of the repository: the values they hand out
  are a parameter of the model, the stream \<open>lib_draws\<close>, read at position
  \<open>lib_pos\<close>.
\<close>

datatype 't distribution =
    Exponential 't
  | Uniform 't 't
  | Deterministic 't
  | Erlang int 't

record 't RandomGenerator =
  kind :: "'t distribution"
  lib_draws :: "nat \<Rightarrow> 't"
  lib_pos :: nat

text \<open>The constructors: the parameter checks of each class, in the source's order.\<close>

definition ExponentialGenerator :: 
  "'t::{zero,ord} \<Rightarrow> (nat \<Rightarrow> 't) \<Rightarrow> sim_error + 't RandomGenerator" where
  "ExponentialGenerator lambda rd =
     (if lambda \<le> 0 then Inl invalid_argument
      else Inr \<lparr>kind = Exponential lambda, lib_draws = rd, lib_pos = 0\<rparr>)"

definition UniformGenerator :: 
  "'t::ord \<Rightarrow> 't \<Rightarrow> (nat \<Rightarrow> 't) \<Rightarrow> sim_error + 't RandomGenerator" where
  "UniformGenerator a b rd =
     (if a \<ge> b then Inl invalid_argument
      else Inr \<lparr>kind = Uniform a b, lib_draws = rd, lib_pos = 0\<rparr>)"

definition DeterministicGenerator :: "'t::zero \<Rightarrow> sim_error + 't RandomGenerator" where
  "DeterministicGenerator v = Inr \<lparr>kind = Deterministic v, lib_draws = (\<lambda>_. 0), lib_pos = 0\<rparr>"

definition ErlangGenerator :: 
  "int \<Rightarrow> 't::{zero,ord} \<Rightarrow> (nat \<Rightarrow> 't) \<Rightarrow> sim_error + 't RandomGenerator" where
  "ErlangGenerator k lambda rd =
     (if k \<le> 0 then Inl invalid_argument
      else if lambda \<le> 0 then Inl invalid_argument
      else Inr \<lparr>kind = Erlang k lambda, lib_draws = rd, lib_pos = 0\<rparr>)"

text \<open>
  The loop of \<open>ErlangGenerator::generate\<close>: \<open>sum\<close> starts at 0 and adds one draw
  of the exponential distribution per round, \<open>k\<close> rounds.
\<close>

fun erlang_sum :: "(nat \<Rightarrow> 't::{zero,plus}) \<Rightarrow> nat \<Rightarrow> nat \<Rightarrow> 't" where
  "erlang_sum f p 0 = 0"
| "erlang_sum f p (Suc i) = erlang_sum f p i + f (p + i)"

definition generate :: "'t::{zero,plus} RandomGenerator \<Rightarrow> 't \<times> 't RandomGenerator" where
  "generate g =
     (case kind g of
        Exponential lambda \<Rightarrow> (lib_draws g (lib_pos g), g\<lparr>lib_pos := lib_pos g + 1\<rparr>)
      | Uniform a b \<Rightarrow> (lib_draws g (lib_pos g), g\<lparr>lib_pos := lib_pos g + 1\<rparr>)
      | Deterministic v \<Rightarrow> (v, g)
      | Erlang k lambda \<Rightarrow>
          (erlang_sum (lib_draws g) (lib_pos g) (nat k), g\<lparr>lib_pos := lib_pos g + nat k\<rparr>))"

definition mean :: "'t::{zero,numeral,uminus,inverse} RandomGenerator \<Rightarrow> 't" where
  "mean g =
     (case kind g of
        Exponential lambda \<Rightarrow> 1 / lambda
      | Uniform a b \<Rightarrow> (a + b) / 2
      | Deterministic v \<Rightarrow> v
      | Erlang k lambda \<Rightarrow> of_counter k / lambda)"

definition variance :: "'t::{zero,numeral,minus,uminus,times,inverse} RandomGenerator \<Rightarrow> 't" where
  "variance g =
     (case kind g of
        Exponential lambda \<Rightarrow> 1 / (lambda * lambda)
      | Uniform a b \<Rightarrow> ((b - a) * (b - a)) / 12
      | Deterministic v \<Rightarrow> 0
      | Erlang k lambda \<Rightarrow> of_counter k / (lambda * lambda))"

section \<open>Queue disciplines (queue_disciplines.h)\<close>

subsection \<open>FIFOStrategy: a \<open>std::queue\<close>\<close>

definition FIFOStrategy_push :: "'a list \<Rightarrow> 'a \<Rightarrow> 'a list" where
  "FIFOStrategy_push queue item = queue @ [item]"

definition FIFOStrategy_pop :: "'a list \<Rightarrow> sim_error + ('a \<times> 'a list)" where
  "FIFOStrategy_pop queue =
     (case queue of [] \<Rightarrow> Inl runtime_error | item # rest \<Rightarrow> Inr (item, rest))"

subsection \<open>PriorityStrategy: a \<open>std::priority_queue\<close> of \<open>PriorityItem\<close>\<close>

text \<open>
  The priority queue holds the buffered \<open>PriorityItem\<close>s; it is kept here as the
  list of its elements in the order they were pushed. \<open>top()\<close> is an element that
  no other element precedes under \<open>operator>\<close>, that is one of least
  \<open>priority\<close>; which one, among several of the same priority, is a matter of the
  library's heap and is left to the parameter \<open>pick\<close> (the number is the count of
  operations done before, so that the choice may depend on the history).
\<close>

record 'a PriorityItem =
  item :: 'a
  priority :: int

type_synonym 'a priority_top = "nat \<Rightarrow> 'a PriorityItem list \<Rightarrow> 'a PriorityItem"

definition priority_top_ok :: "'a priority_top \<Rightarrow> bool" where
  "priority_top_ok pick =
     (\<forall>n q. q \<noteq> [] \<longrightarrow> pick n q \<in> set q \<and> (\<forall>p \<in> set q. priority (pick n q) \<le> priority p))"

definition PriorityStrategy_push :: "'a PriorityItem list \<Rightarrow> 'a \<Rightarrow> 'a PriorityItem list" where
  "PriorityStrategy_push queue x = queue @ [\<lparr>item = x, priority = int (length queue)\<rparr>]"

definition PriorityStrategy_pop ::
  "'a priority_top \<Rightarrow> nat \<Rightarrow> 'a PriorityItem list \<Rightarrow> sim_error + ('a \<times> 'a PriorityItem list)" where
  "PriorityStrategy_pop pick n queue =
     (if queue = [] then Inl runtime_error
      else Inr (item (pick n queue), remove1 (pick n queue) queue))"

text \<open>A concrete choice: the first pushed among the elements of least priority.\<close>

fun least_priority :: "'a PriorityItem \<Rightarrow> 'a PriorityItem list \<Rightarrow> 'a PriorityItem" where
  "least_priority p [] = p"
| "least_priority p (x # xs) =
     (if priority x < priority p then least_priority x xs else least_priority p xs)"

definition first_least :: "'a priority_top" where
  "first_least n q = least_priority (hd q) (tl q)"

subsection \<open>RoundRobinStrategy\<close>

record 'a RoundRobinStrategy =
  queues :: "'a list list"
  current_queue :: nat

definition RoundRobinStrategy :: "nat \<Rightarrow> sim_error + 'a RoundRobinStrategy" where
  "RoundRobinStrategy num_queues =
     (if num_queues = 0 then Inl invalid_argument
      else Inr \<lparr>queues = replicate num_queues [], current_queue = 0\<rparr>)"

definition RoundRobinStrategy_push :: "'a RoundRobinStrategy \<Rightarrow> 'a \<Rightarrow> 'a RoundRobinStrategy" where
  "RoundRobinStrategy_push s x =
     s\<lparr>queues := (queues s)[current_queue s := queues s ! current_queue s @ [x]],
       current_queue := (current_queue s + 1) mod length (queues s)\<rparr>"

text \<open>The scan of \<open>pop\<close>, from round \<open>i\<close> of its \<open>for\<close> loop on.\<close>

function RoundRobinStrategy_pop_from ::
  "'a RoundRobinStrategy \<Rightarrow> nat \<Rightarrow> sim_error + ('a \<times> 'a RoundRobinStrategy)" where
  "RoundRobinStrategy_pop_from s i =
     (if i < length (queues s) then
        (if queues s ! ((current_queue s + i) mod length (queues s)) \<noteq> [] then
           Inr (hd (queues s ! ((current_queue s + i) mod length (queues s))),
                s\<lparr>queues := (queues s)[(current_queue s + i) mod length (queues s) :=
                                 tl (queues s ! ((current_queue s + i) mod length (queues s)))],
                  current_queue := ((current_queue s + i) mod length (queues s) + 1)
                                     mod length (queues s)\<rparr>)
         else RoundRobinStrategy_pop_from s (i + 1))
      else Inl runtime_error)"
  by pat_completeness auto
termination
  by (relation "measure (\<lambda>(s, i). length (queues s) - i)") auto

declare RoundRobinStrategy_pop_from.simps [simp del]

definition RoundRobinStrategy_pop ::
  "'a RoundRobinStrategy \<Rightarrow> sim_error + ('a \<times> 'a RoundRobinStrategy)" where
  "RoundRobinStrategy_pop s = RoundRobinStrategy_pop_from s 0"

definition RoundRobinStrategy_empty :: "'a RoundRobinStrategy \<Rightarrow> bool" where
  "RoundRobinStrategy_empty s = (\<forall>q \<in> set (queues s). q = [])"

subsection \<open>Schedules of pushes and pops\<close>

text \<open>
  A caller's schedule is a list of operations. Running it yields what each \<open>pop\<close>
  returned, in order: the item, or the exception (which leaves the buffer as it was).
\<close>

datatype 'a queue_op = Push 'a | Pop

fun fifo_run :: "'a list \<Rightarrow> 'a queue_op list \<Rightarrow> (sim_error + 'a) list" where
  "fifo_run q [] = []"
| "fifo_run q (Push x # ops) = fifo_run (FIFOStrategy_push q x) ops"
| "fifo_run q (Pop # ops) =
     (case FIFOStrategy_pop q of
        Inl e \<Rightarrow> Inl e # fifo_run q ops
      | Inr (x, q') \<Rightarrow> Inr x # fifo_run q' ops)"

fun priority_run ::
  "'a priority_top \<Rightarrow> nat \<Rightarrow> 'a PriorityItem list \<Rightarrow> 'a queue_op list \<Rightarrow> (sim_error + 'a) list" where
  "priority_run pick n q [] = []"
| "priority_run pick n q (Push x # ops) = priority_run pick (Suc n) (PriorityStrategy_push q x) ops"
| "priority_run pick n q (Pop # ops) =
     (case PriorityStrategy_pop pick n q of
        Inl e \<Rightarrow> Inl e # priority_run pick (Suc n) q ops
      | Inr (x, q') \<Rightarrow> Inr x # priority_run pick (Suc n) q' ops)"

fun round_robin_run ::
  "'a RoundRobinStrategy \<Rightarrow> 'a queue_op list \<Rightarrow> (sim_error + 'a) list" where
  "round_robin_run s [] = []"
| "round_robin_run s (Push x # ops) = round_robin_run (RoundRobinStrategy_push s x) ops"
| "round_robin_run s (Pop # ops) =
     (case RoundRobinStrategy_pop s of
        Inl e \<Rightarrow> Inl e # round_robin_run s ops
      | Inr (x, s') \<Rightarrow> Inr x # round_robin_run s' ops)"

fun round_robin_state :: "'a RoundRobinStrategy \<Rightarrow> 'a queue_op list \<Rightarrow> 'a RoundRobinStrategy" where
  "round_robin_state s [] = s"
| "round_robin_state s (Push x # ops) = round_robin_state (RoundRobinStrategy_push s x) ops"
| "round_robin_state s (Pop # ops) =
     (case RoundRobinStrategy_pop s of
        Inl e \<Rightarrow> round_robin_state s ops
      | Inr (x, s') \<Rightarrow> round_robin_state s' ops)"

text \<open>
  Where a push went is read off the sub-queues themselves: \<open>received before after x\<close>
  lists the indices of the sub-queues that hold, after the push, what they held before
  with \<open>x\<close> added at the back. \<open>push_destinations\<close> collects these indices over a
  schedule.
\<close>

definition received :: "'a list list \<Rightarrow> 'a list list \<Rightarrow> 'a \<Rightarrow> nat list" where
  "received before after x = filter (\<lambda>i. after ! i = before ! i @ [x]) [0..<length before]"

fun push_destinations :: "'a RoundRobinStrategy \<Rightarrow> 'a queue_op list \<Rightarrow> nat list" where
  "push_destinations s [] = []"
| "push_destinations s (Push x # ops) =
     received (queues s) (queues (RoundRobinStrategy_push s x)) x
       @ push_destinations (RoundRobinStrategy_push s x) ops"
| "push_destinations s (Pop # ops) =
     (case RoundRobinStrategy_pop s of
        Inl e \<Rightarrow> push_destinations s ops
      | Inr (x, s') \<Rightarrow> push_destinations s' ops)"

section \<open>Jobs, events and the job queue (simulator.h)\<close>

record 't Job =
  id_job :: int
  arrival_time :: 't
  service_time :: 't
  start_time :: 't
  finish_time :: 't

text \<open>The two constructors of \<open>Job\<close>: the default one and \<open>Job(_id, arrival, service)\<close>.\<close>

definition Job_default :: "'t::{zero,one,uminus} Job" where
  "Job_default = \<lparr>id_job = -1, arrival_time = 0, service_time = 0, start_time = -1, finish_time = -1\<rparr>"

definition Job_new :: "int \<Rightarrow> 't::{one,uminus} \<Rightarrow> 't \<Rightarrow> 't Job" where
  "Job_new i arrival service =
     \<lparr>id_job = i, arrival_time = arrival, service_time = service, start_time = -1, finish_time = -1\<rparr>"

definition wait_time :: "'t::{zero,minus,ord} Job \<Rightarrow> 't" where
  "wait_time j = (if start_time j \<ge> 0 then start_time j - arrival_time j else 0)"

definition system_time :: "'t::{zero,minus,ord} Job \<Rightarrow> 't" where
  "system_time j = (if finish_time j \<ge> 0 then finish_time j - arrival_time j else 0)"

datatype event_type = ARRIVAL | DEPARTURE

record 't Event =
  time :: 't
  type_ev :: event_type
  job_id :: int
  core_id :: int

text \<open>The two constructors of \<open>Event\<close>.\<close>

definition Event_arrival :: "'t \<Rightarrow> 't Event" where
  "Event_arrival t = \<lparr>time = t, type_ev = ARRIVAL, job_id = -1, core_id = -1\<rparr>"

definition Event_departure :: "'t \<Rightarrow> int \<Rightarrow> int \<Rightarrow> 't Event" where
  "Event_departure t jid cid = \<lparr>time = t, type_ev = DEPARTURE, job_id = jid, core_id = cid\<rparr>"

text \<open>\<open>FIFOQueue\<close>, the job queue of the simulator.\<close>

definition FIFOQueue_push :: "'t Job list \<Rightarrow> 't Job \<Rightarrow> 't Job list" where
  "FIFOQueue_push queue j = queue @ [j]"

definition FIFOQueue_pop :: "'t Job list \<Rightarrow> sim_error + ('t Job \<times> 't Job list)" where
  "FIFOQueue_pop queue =
     (case queue of [] \<Rightarrow> Inl runtime_error | j # rest \<Rightarrow> Inr (j, rest))"

section \<open>The simulator (simulator.h, simulator.cpp)\<close>

text \<open>
  The members of class \<open>Simulator\<close>. The counters are C++ \<open>int\<close>s; each grows by
  at most one per round of the event loop, which does at most \<open>MAX_ITERATIONS\<close>
  rounds, so they never wrap and are modelled as integers. \<open>active_jobs_\<close> is a
  \<open>std::map\<close>. The event queue is a \<open>std::priority_queue\<close> ordered by time only;
  it is kept as the list of its pending events in the order they were pushed.
\<close>

record 't Simulator =
  current_time :: 't
  jobs_completed :: int
  jobs_lost :: int
  next_job_id :: int
  total_arrivals :: int
  arrival_generator :: "'t RandomGenerator"
  service_generator :: "'t RandomGenerator"
  num_cores :: int
  buffer_capacity :: int
  event_queue :: "'t Event list"
  job_queue :: "'t Job list"
  cores_busy :: "bool list"
  cores_finish_time :: "'t list"
  cores_current_job :: "int list"
  active_jobs :: "int \<rightharpoonup> 't Job"
  wait_times :: "'t list"
  system_times :: "'t list"
  total_busy_time :: 't
  last_busy_check_time :: 't

definition Simulator_new ::
  "'t::zero RandomGenerator \<Rightarrow> 't RandomGenerator \<Rightarrow> int \<Rightarrow> int \<Rightarrow> sim_error + 't Simulator" where
  "Simulator_new arrival_gen service_gen cores buffer_cap =
     (if cores \<le> 0 then Inl invalid_argument
      else Inr \<lparr>current_time = 0, jobs_completed = 0, jobs_lost = 0, next_job_id = 0,
                total_arrivals = 0,
                arrival_generator = arrival_gen, service_generator = service_gen,
                num_cores = cores, buffer_capacity = buffer_cap,
                event_queue = [], job_queue = [],
                cores_busy = replicate (nat cores) False,
                cores_finish_time = replicate (nat cores) 0,
                cores_current_job = replicate (nat cores) (-1),
                active_jobs = Map.empty, wait_times = [], system_times = [],
                total_busy_time = 0, last_busy_check_time = 0\<rparr>)"

definition initialize :: "'t::zero Simulator \<Rightarrow> 't Simulator" where
  "initialize s =
     s\<lparr>current_time := 0, jobs_completed := 0, jobs_lost := 0, next_job_id := 0,
       total_arrivals := 0, total_busy_time := 0, last_busy_check_time := 0,
       event_queue := [], job_queue := [], active_jobs := Map.empty,
       wait_times := [], system_times := [],
       cores_busy := replicate (length (cores_busy s)) False,
       cores_finish_time := replicate (length (cores_finish_time s)) 0,
       cores_current_job := replicate (length (cores_current_job s)) (-1)\<rparr>"

definition count_busy_cores :: "'t Simulator \<Rightarrow> int" where
  "count_busy_cores s = fold (\<lambda>busy count. if busy then count + 1 else count) (cores_busy s) 0"

definition update_busy_statistics :: 
  "'t::{zero,one,plus,minus,uminus,times,ord} Simulator \<Rightarrow> 't Simulator" where
  "update_busy_statistics s =
     (if last_busy_check_time s < current_time s then
        s\<lparr>total_busy_time := total_busy_time s
             + (current_time s - last_busy_check_time s) * of_counter (count_busy_cores s),
          last_busy_check_time := current_time s\<rparr>
      else s)"

definition schedule_next_arrival :: "'t::{zero,plus} Simulator \<Rightarrow> 't Simulator" where
  "schedule_next_arrival s =
     (case generate (arrival_generator s) of (interval, g) \<Rightarrow>
        s\<lparr>arrival_generator := g,
          event_queue := event_queue s @ [Event_arrival (current_time s + interval)]\<rparr>)"

definition schedule_departure :: 
  "int \<Rightarrow> int \<Rightarrow> 't::plus \<Rightarrow> 't Simulator \<Rightarrow> 't Simulator" where
  "schedule_departure jid cid service s =
     s\<lparr>event_queue := event_queue s @ [Event_departure (current_time s + service) jid cid]\<rparr>"

text \<open>
  The loop of \<open>find_free_core\<close>, from index \<open>i\<close> on; it reads the members
  \<open>num_cores_\<close> and \<open>cores_busy_\<close>.
\<close>

function find_free_core_from :: "int \<Rightarrow> bool list \<Rightarrow> int \<Rightarrow> int" where
  "find_free_core_from cores busy i =
     (if i < cores then
        (if \<not> busy ! nat i then i else find_free_core_from cores busy (i + 1))
      else -1)"
  by pat_completeness auto
termination
  by (relation "measure (\<lambda>(cores, busy, i). nat (cores - i))") auto

declare find_free_core_from.simps [simp del]

definition find_free_core :: "'t Simulator \<Rightarrow> int" where
  "find_free_core s = find_free_core_from (num_cores s) (cores_busy s) 0"

definition occupy_core :: 
  "int \<Rightarrow> int \<Rightarrow> 't \<Rightarrow> 't Simulator \<Rightarrow> sim_error + 't Simulator" where
  "occupy_core cid jid finish s =
     (if cid < 0 \<or> cid \<ge> num_cores s then Inl out_of_range
      else Inr (s\<lparr>cores_busy := (cores_busy s)[nat cid := True],
                  cores_finish_time := (cores_finish_time s)[nat cid := finish],
                  cores_current_job := (cores_current_job s)[nat cid := jid]\<rparr>))"

definition release_core :: "int \<Rightarrow> 't::zero Simulator \<Rightarrow> sim_error + 't Simulator" where
  "release_core cid s =
     (if cid < 0 \<or> cid \<ge> num_cores s then Inl out_of_range
      else Inr (s\<lparr>cores_busy := (cores_busy s)[nat cid := False],
                  cores_finish_time := (cores_finish_time s)[nat cid := 0],
                  cores_current_job := (cores_current_job s)[nat cid := -1]\<rparr>))"

definition add_job :: "'t Job \<Rightarrow> 't Simulator \<Rightarrow> 't Simulator" where
  "add_job j s = s\<lparr>active_jobs := (active_jobs s)(id_job j \<mapsto> j)\<rparr>"

definition record_wait_time :: "'t \<Rightarrow> 't Simulator \<Rightarrow> 't Simulator" where
  "record_wait_time t s = s\<lparr>wait_times := wait_times s @ [t]\<rparr>"

definition record_system_time :: "'t \<Rightarrow> 't Simulator \<Rightarrow> 't Simulator" where
  "record_system_time t s = s\<lparr>system_times := system_times s @ [t]\<rparr>"

definition buffer_full :: "'t Simulator \<Rightarrow> bool" where
  "buffer_full s =
     (if buffer_capacity s = -1 then False
      else int (length (job_queue s)) \<ge> buffer_capacity s)"

text \<open>
  \<open>active_jobs_[k]\<close>: \<open>operator[]\<close> of \<open>std::map\<close> yields the stored job, or a
  freshly inserted default job when the key is absent.
\<close>

definition active_jobs_at :: "'t::{zero,one,uminus} Simulator \<Rightarrow> int \<Rightarrow> 't Job" where
  "active_jobs_at s k = (case active_jobs s k of None \<Rightarrow> Job_default | Some j \<Rightarrow> j)"

definition process_arrival :: 
  "'t::{zero,one,plus,uminus} Simulator \<Rightarrow> sim_error + 't Simulator" where
  "process_arrival s =
     (case generate (service_generator s) of (service, g) \<Rightarrow>
        let new_job = Job_new (next_job_id s) (current_time s) service;
            s1 = add_job new_job
                   (s\<lparr>total_arrivals := total_arrivals s + 1, service_generator := g,
                      next_job_id := next_job_id s + 1\<rparr>);
            free_core = find_free_core s1
        in if free_core \<noteq> -1 then
             (case occupy_core free_core (id_job new_job) (current_time s1 + service)
                     (s1\<lparr>active_jobs := (active_jobs s1)(id_job new_job \<mapsto>
                           (active_jobs_at s1 (id_job new_job))\<lparr>start_time := current_time s1\<rparr>)\<rparr>) of
                Inl e \<Rightarrow> Inl e
              | Inr s2 \<Rightarrow>
                  Inr (schedule_next_arrival (schedule_departure (id_job new_job) free_core service s2)))
           else if buffer_full s1 then
             Inr (schedule_next_arrival
                    (s1\<lparr>jobs_lost := jobs_lost s1 + 1,
                        active_jobs := (active_jobs s1)(id_job new_job := None)\<rparr>))
           else
             Inr (schedule_next_arrival
                    (s1\<lparr>job_queue := FIFOQueue_push (job_queue s1) new_job\<rparr>)))"

definition process_departure :: 
  "int \<Rightarrow> int \<Rightarrow> 't::{zero,plus,minus,ord} Simulator \<Rightarrow> sim_error + 't Simulator" where
  "process_departure jid cid s =
     (case active_jobs s jid of
        None \<Rightarrow> Inr s
      | Some found \<Rightarrow>
          (let job = found\<lparr>finish_time := current_time s\<rparr>;
               s1 = record_system_time (system_time job)
                      (record_wait_time (wait_time job)
                         (s\<lparr>active_jobs := (active_jobs s)(jid \<mapsto> job)\<rparr>))
           in (case release_core cid s1 of
                 Inl e \<Rightarrow> Inl e
               | Inr s2 \<Rightarrow>
                   (let s3 = s2\<lparr>jobs_completed := jobs_completed s2 + 1,
                                active_jobs := (active_jobs s2)(jid := None)\<rparr>
                    in if job_queue s3 \<noteq> [] then
                         (case FIFOQueue_pop (job_queue s3) of
                            Inl e \<Rightarrow> Inl e
                          | Inr (next_job, rest) \<Rightarrow>
                              (let s4 = s3\<lparr>job_queue := rest\<rparr>
                               in (case active_jobs s4 (id_job next_job) of
                                     None \<Rightarrow> Inr s4
                                   | Some stored \<Rightarrow>
                                       (let job_to_start = stored\<lparr>start_time := current_time s4\<rparr>;
                                            s5 = s4\<lparr>active_jobs :=
                                                   (active_jobs s4)(id_job next_job \<mapsto> job_to_start)\<rparr>
                                        in (case occupy_core cid (id_job job_to_start)
                                                   (current_time s5 + service_time job_to_start) s5 of
                                              Inl e \<Rightarrow> Inl e
                                            | Inr s6 \<Rightarrow>
                                                Inr (schedule_departure (id_job job_to_start) cid
                                                       (service_time job_to_start) s6))))))
                       else Inr s3))))"

subsection \<open>The event loop\<close>

text \<open>
  \<open>event_queue_.top()\<close> is a pending event that no other precedes in time. Among
  several events of the same time the choice belongs to the library's heap; it is the
  parameter \<open>pick\<close> of the loop, which may depend on the round (its first argument is
  the iteration count).
\<close>

type_synonym 't tie_break = "int \<Rightarrow> 't Event list \<Rightarrow> 't Event"

definition top_ok :: "'t::ord tie_break \<Rightarrow> bool" where
  "top_ok pick =
     (\<forall>n q. q \<noteq> [] \<longrightarrow> pick n q \<in> set q \<and> (\<forall>e \<in> set q. time (pick n q) \<le> time e))"

text \<open>A concrete choice: the first pushed among the earliest events.\<close>

fun earliest :: "'t::ord Event \<Rightarrow> 't Event list \<Rightarrow> 't Event" where
  "earliest e [] = e"
| "earliest e (x # xs) = (if time x < time e then earliest x xs else earliest e xs)"

definition first_earliest :: "'t::ord tie_break" where
  "first_earliest n q = earliest (hd q) (tl q)"

definition MAX_ITERATIONS :: int where
  "MAX_ITERATIONS = 100000000"

text \<open>
  One round of the loop after the iteration check: take the top event off the queue,
  move the clock to it, update the busy statistics, and handle the event.
\<close>

definition process_event :: 
  "'t::{zero,one,plus,minus,uminus,times,ord} Event \<Rightarrow> 't Simulator \<Rightarrow> sim_error + 't Simulator" where
  "process_event next_event s =
     (let s1 = update_busy_statistics
                 (s\<lparr>event_queue := remove1 next_event (event_queue s),
                    current_time := time next_event\<rparr>)
      in case type_ev next_event of
           ARRIVAL \<Rightarrow> process_arrival s1
         | DEPARTURE \<Rightarrow> process_departure (job_id next_event) (core_id next_event) s1)"

text \<open>
  The \<open>while\<close> loop shared by \<open>run\<close> and \<open>run_until_jobs\<close>, which differ only in
  the second conjunct of the loop condition, the parameter \<open>continue\<close>.
\<close>

function event_loop ::
  "'t::{zero,one,plus,minus,uminus,times,ord} tie_break \<Rightarrow> ('t Simulator \<Rightarrow> bool) \<Rightarrow> int \<Rightarrow> 't Simulator
     \<Rightarrow> sim_error + 't Simulator" where
  "event_loop pick continue iteration_count s =
     (if event_queue s \<noteq> [] \<and> continue s then
        (if iteration_count + 1 > MAX_ITERATIONS then Inr s
         else case process_event (pick (iteration_count + 1) (event_queue s)) s of
                Inl e \<Rightarrow> Inl e
              | Inr s' \<Rightarrow> event_loop pick continue (iteration_count + 1) s')
      else Inr s)"
  by pat_completeness auto
termination
  by (relation "measure (\<lambda>(pick, continue, n, s). nat (MAX_ITERATIONS - n))") auto

declare event_loop.simps [simp del]

definition run :: 
  "'t::{zero,one,plus,minus,uminus,times,ord} tie_break \<Rightarrow> 't \<Rightarrow> 't Simulator \<Rightarrow> sim_error + 't Simulator" where
  "run pick simulation_time s =
     (case event_loop pick (\<lambda>s'. current_time s' < simulation_time) 0
             (schedule_next_arrival (initialize s)) of
        Inl e \<Rightarrow> Inl e
      | Inr s' \<Rightarrow> Inr (update_busy_statistics s'))"

definition run_until_jobs :: 
  "'t::{zero,one,plus,minus,uminus,times,ord} tie_break \<Rightarrow> int \<Rightarrow> 't Simulator \<Rightarrow> sim_error + 't Simulator" where
  "run_until_jobs pick jobs_to_process s =
     (case event_loop pick (\<lambda>s'. jobs_completed s' < jobs_to_process) 0
             (schedule_next_arrival (initialize s)) of
        Inl e \<Rightarrow> Inl e
      | Inr s' \<Rightarrow> Inr (update_busy_statistics s'))"

subsection \<open>Statistics and getters\<close>

definition avg_wait_time :: "'t::{zero,one,plus,inverse} Simulator \<Rightarrow> 't" where
  "avg_wait_time s =
     (if wait_times s = [] then 0
      else fold (\<lambda>t sum. sum + t) (wait_times s) 0 / of_count (length (wait_times s)))"

definition avg_system_time :: "'t::{zero,one,plus,inverse} Simulator \<Rightarrow> 't" where
  "avg_system_time s =
     (if system_times s = [] then 0
      else fold (\<lambda>t sum. sum + t) (system_times s) 0 / of_count (length (system_times s)))"

definition wait_time_variance :: 
  "'t::{zero,one,plus,minus,times,inverse} Simulator \<Rightarrow> 't" where
  "wait_time_variance s =
     (if length (wait_times s) < 2 then 0
      else fold (\<lambda>t sum_sq. sum_sq + (t - avg_wait_time s) * (t - avg_wait_time s))
             (wait_times s) 0
           / of_count (length (wait_times s) - 1))"

definition system_time_variance :: 
  "'t::{zero,one,plus,minus,times,inverse} Simulator \<Rightarrow> 't" where
  "system_time_variance s =
     (if length (system_times s) < 2 then 0
      else fold (\<lambda>t sum_sq. sum_sq + (t - avg_system_time s) * (t - avg_system_time s))
             (system_times s) 0
           / of_count (length (system_times s) - 1))"

definition loss_probability :: "'t::{zero,one,plus,uminus,inverse} Simulator \<Rightarrow> 't" where
  "loss_probability s =
     (if total_arrivals s = 0 then 0
      else of_counter (jobs_lost s) / of_counter (total_arrivals s))"

definition jobs_in_system :: "'t Simulator \<Rightarrow> int" where
  "jobs_in_system s = int (card (dom (active_jobs s)))"

definition queue_length :: "'t Simulator \<Rightarrow> int" where
  "queue_length s = int (length (job_queue s))"

section \<open>Definitions used to state the properties\<close>

text \<open>
  The properties of the generators and of the engine are stated at type \<open>real\<close>, and so
  are the definitions of this section that speak of them.
\<close>

text \<open>The values returned by \<open>n\<close> successive calls of \<open>generate()\<close>.\<close>

fun samples :: "real RandomGenerator \<Rightarrow> nat \<Rightarrow> real list" where
  "samples g 0 = []"
| "samples g (Suc n) = (case generate g of (x, g') \<Rightarrow> x # samples g' n)"

text \<open>
  The specification's statistics: the arithmetic mean, and the sample variance with
  Bessel's correction (the squared deviations from the mean, summed, over \<open>n - 1\<close>).
\<close>

definition sample_mean :: "real list \<Rightarrow> real" where
  "sample_mean xs = sum_list xs / real (length xs)"

definition sample_variance :: "real list \<Rightarrow> real" where
  "sample_variance xs = (\<Sum>x\<leftarrow>xs. (x - sample_mean xs)\<^sup>2) / (real (length xs) - 1)"

text \<open>
  When a schedule keeps the keys of the priority discipline in push order: with \<open>n\<close>
  items buffered and \<open>k\<close> pops served since the last push, a push is made only onto
  an empty buffer or when no pop has been served since the push before it.
\<close>

fun refill_on_empty :: "nat \<Rightarrow> nat \<Rightarrow> 'a queue_op list \<Rightarrow> bool" where
  "refill_on_empty n k [] = True"
| "refill_on_empty n k (Push x # ops) = ((n = 0 \<or> k = 0) \<and> refill_on_empty (Suc n) 0 ops)"
| "refill_on_empty n k (Pop # ops) =
     (if n = 0 then refill_on_empty 0 0 ops else refill_on_empty (n - 1) (Suc k) ops)"

text \<open>The keys of the buffered items count up from \<open>k\<close>, in push order.\<close>

fun keys_from :: "int \<Rightarrow> 'a PriorityItem list \<Rightarrow> bool" where
  "keys_from k [] = True"
| "keys_from k (p # ps) = (priority p = k \<and> keys_from (k + 1) ps)"

text \<open>
  The round-robin discipline as the specification words it: pushes go to the sub-queues
  in cyclic order of destination index (\<open>cyclic_destinations\<close>, and the cursor
  \<open>next_push\<close>), and a pop scans from the index after the one last served.
\<close>

definition cyclic_destinations :: "nat \<Rightarrow> nat \<Rightarrow> nat list" where
  "cyclic_destinations k n = map (\<lambda>i. i mod k) [0..<n]"

record 'a two_cursors =
  sub_queues :: "'a list list"
  next_push :: nat
  last_served :: nat

definition two_cursors_push :: "'a two_cursors \<Rightarrow> 'a \<Rightarrow> 'a two_cursors" where
  "two_cursors_push s x =
     s\<lparr>sub_queues := (sub_queues s)[next_push s := sub_queues s ! next_push s @ [x]],
       next_push := (next_push s + 1) mod length (sub_queues s)\<rparr>"

fun first_non_empty :: "'a list list \<Rightarrow> nat \<Rightarrow> nat \<Rightarrow> nat option" where
  "first_non_empty qs start 0 = None"
| "first_non_empty qs start (Suc n) =
     (if qs ! (start mod length qs) \<noteq> [] then Some (start mod length qs)
      else first_non_empty qs (start + 1) n)"

definition two_cursors_pop :: "'a two_cursors \<Rightarrow> sim_error + ('a \<times> 'a two_cursors)" where
  "two_cursors_pop s =
     (case first_non_empty (sub_queues s) (last_served s + 1) (length (sub_queues s)) of
        None \<Rightarrow> Inl runtime_error
      | Some idx \<Rightarrow>
          Inr (hd (sub_queues s ! idx),
               s\<lparr>sub_queues := (sub_queues s)[idx := tl (sub_queues s ! idx)],
                 last_served := idx\<rparr>))"

fun two_cursors_run :: "'a two_cursors \<Rightarrow> 'a queue_op list \<Rightarrow> (sim_error + 'a) list" where
  "two_cursors_run s [] = []"
| "two_cursors_run s (Push x # ops) = two_cursors_run (two_cursors_push s x) ops"
| "two_cursors_run s (Pop # ops) =
     (case two_cursors_pop s of
        Inl e \<Rightarrow> Inl e # two_cursors_run s ops
      | Inr (x, s') \<Rightarrow> Inr x # two_cursors_run s' ops)"

text \<open>The cursor of the round-robin discipline points at one of its sub-queues.\<close>

definition cursor_ok :: "'a RoundRobinStrategy \<Rightarrow> bool" where
  "cursor_ok s = (queues s \<noteq> [] \<and> current_queue s < length (queues s))"

subsection \<open>Event boundaries and the events processed\<close>

text \<open>
  The states at the event boundaries of a run on the engine \<open>sim\<close>: the state the
  loop starts from (after \<open>initialize\<close> and the first \<open>schedule_next_arrival\<close>),
  and the state after each event that has been processed to its end. The event taken is
  any pending event that no other precedes in time, so the relation covers every choice
  the event queue may make among events of the same time, and both \<open>run\<close> and
  \<open>run_until_jobs\<close>.
\<close>

inductive event_boundary :: "real Simulator \<Rightarrow> real Simulator \<Rightarrow> bool" for sim where
  start: "event_boundary sim (schedule_next_arrival (initialize sim))"
| step: "event_boundary sim s \<Longrightarrow> e \<in> set (event_queue s)
         \<Longrightarrow> \<forall>e' \<in> set (event_queue s). time e \<le> time e'
         \<Longrightarrow> process_event e s = Inr s' \<Longrightarrow> event_boundary sim s'"

text \<open>The events the loop takes off the queue, in the order it processes them.\<close>

function processed_events ::
  "real tie_break \<Rightarrow> (real Simulator \<Rightarrow> bool) \<Rightarrow> int \<Rightarrow> real Simulator \<Rightarrow> real Event list" where
  "processed_events pick continue iteration_count s =
     (if event_queue s \<noteq> [] \<and> continue s then
        (if iteration_count + 1 > MAX_ITERATIONS then []
         else pick (iteration_count + 1) (event_queue s) #
              (case process_event (pick (iteration_count + 1) (event_queue s)) s of
                 Inl e \<Rightarrow> []
               | Inr s' \<Rightarrow> processed_events pick continue (iteration_count + 1) s'))
      else [])"
  by pat_completeness auto
termination
  by (relation "measure (\<lambda>(pick, continue, n, s). nat (MAX_ITERATIONS - n))") auto

declare processed_events.simps [simp del]

text \<open>
  The state in which an event is handled: the event is off the queue, the clock stands at
  its time, and the busy statistics are up to date.
\<close>

definition at_event :: "real Event \<Rightarrow> real Simulator \<Rightarrow> real Simulator" where
  "at_event e s =
     update_busy_statistics
       (s\<lparr>event_queue := remove1 e (event_queue s), current_time := time e\<rparr>)"

subsection \<open>Invariants of the event loop\<close>

text \<open>The core vectors have one slot per core, and there is at least one core.\<close>

definition configured :: "real Simulator \<Rightarrow> bool" where
  "configured s =
     (0 < num_cores s
      \<and> length (cores_busy s) = nat (num_cores s)
      \<and> length (cores_finish_time s) = nat (num_cores s)
      \<and> length (cores_current_job s) = nat (num_cores s))"

text \<open>Every active job has an id below the next one to be given out.\<close>

definition ids_fresh :: "real Simulator \<Rightarrow> bool" where
  "ids_fresh s = (finite (dom (active_jobs s)) \<and> (\<forall>k \<in> dom (active_jobs s). k < next_job_id s))"

text \<open>
  Every pending departure names a core in range that is busy with the departing job, and
  no two pending departures name the same core.
\<close>

definition departures_ok :: "real Simulator \<Rightarrow> bool" where
  "departures_ok s =
     ((\<forall>e \<in> set (event_queue s). type_ev e = DEPARTURE \<longrightarrow>
          0 \<le> core_id e \<and> core_id e < num_cores s \<and> cores_busy s ! nat (core_id e)
          \<and> cores_current_job s ! nat (core_id e) = job_id e)
      \<and> distinct (map core_id (filter (\<lambda>e. type_ev e = DEPARTURE) (event_queue s))))"

text \<open>
  Every active job is stored under its own id; no two buffered jobs and no two busy
  cores share a job; no busy core serves a buffered job; and the active jobs are exactly
  the jobs on busy cores and the buffered ones.
\<close>

definition placed :: "real Simulator \<Rightarrow> bool" where
  "placed s =
     ((\<forall>k j. active_jobs s k = Some j \<longrightarrow> id_job j = k)
      \<and> distinct (map id_job (job_queue s))
      \<and> (\<forall>c < length (cores_busy s). cores_busy s ! c \<longrightarrow>
            cores_current_job s ! c \<notin> id_job ` set (job_queue s))
      \<and> (\<forall>c < length (cores_busy s). \<forall>c' < length (cores_busy s).
            cores_busy s ! c \<and> cores_busy s ! c'
            \<and> cores_current_job s ! c = cores_current_job s ! c' \<longrightarrow> c = c')
      \<and> (\<forall>k. (k \<in> dom (active_jobs s)) =
            ((\<exists>c < length (cores_busy s). cores_busy s ! c \<and> cores_current_job s ! c = k)
             \<or> k \<in> id_job ` set (job_queue s))))"

text \<open>The counter equation.\<close>

definition counters_ok :: "real Simulator \<Rightarrow> bool" where
  "counters_ok s = (jobs_completed s + jobs_lost s + jobs_in_system s = total_arrivals s)"

definition consistent :: "real Simulator \<Rightarrow> bool" where
  "consistent s = (configured s \<and> ids_fresh s \<and> departures_ok s \<and> placed s \<and> counters_ok s)"

subsection \<open>A concrete engine\<close>

text \<open>
  A single-server engine with deterministic generators, \<open>Deterministic(d)\<close> for the
  arrivals and \<open>Deterministic(v)\<close> for the service, as its constructor leaves it; and
  the same engine after the first arrival has been processed.
\<close>

definition det_gen :: "'t::zero \<Rightarrow> 't RandomGenerator" where
  "det_gen v = \<lparr>kind = Deterministic v, lib_draws = (\<lambda>_. 0), lib_pos = 0\<rparr>"

definition single_server :: "'t::{zero,one,uminus} \<Rightarrow> 't \<Rightarrow> int \<Rightarrow> 't Simulator" where
  "single_server d v cap =
     \<lparr>current_time = 0, jobs_completed = 0, jobs_lost = 0, next_job_id = 0, total_arrivals = 0,
      arrival_generator = det_gen d, service_generator = det_gen v,
      num_cores = 1, buffer_capacity = cap, event_queue = [], job_queue = [],
      cores_busy = [False], cores_finish_time = [0], cores_current_job = [-1],
      active_jobs = Map.empty, wait_times = [], system_times = [],
      total_busy_time = 0, last_busy_check_time = 0\<rparr>"

definition after_first_arrival :: "real \<Rightarrow> real \<Rightarrow> int \<Rightarrow> real Simulator" where
  "after_first_arrival d v cap =
     (single_server d v cap)
       \<lparr>current_time := d, next_job_id := 1, total_arrivals := 1,
         event_queue := [Event_departure (d + v) 0 0, Event_arrival (d + d)],
         cores_busy := [True], cores_finish_time := [d + v], cores_current_job := [0],
         active_jobs := [0 \<mapsto> \<lparr>id_job = 0, arrival_time = d, service_time = v,
                                  start_time = d, finish_time = -1\<rparr>],
         last_busy_check_time := d\<rparr>"

text \<open>
  The arrival times of consecutive buffered jobs differ by the inter-arrival time.
\<close>

fun arrivals_chain :: "real \<Rightarrow> real Job list \<Rightarrow> bool" where
  "arrivals_chain d [] = True"
| "arrivals_chain d [j] = True"
| "arrivals_chain d (j1 # j2 # js) =
     (arrival_time j2 = arrival_time j1 + d \<and> arrivals_chain d (j2 # js))"

text \<open>
  The state of a single-core engine with an unbounded buffer and constant inter-arrival
  time \<open>d\<close> and service time \<open>v\<close> in which no job has waited: one pending arrival, at most
  one pending departure, every recorded wait is zero, and a buffered job is due for
  service exactly at its arrival time.
\<close>

definition no_wait_inv :: "real \<Rightarrow> real \<Rightarrow> real Simulator \<Rightarrow> bool" where
  "no_wait_inv d v s =
     (\<exists>a. num_cores s = 1 \<and> buffer_capacity s = -1
        \<and> length (cores_busy s) = 1 \<and> length (cores_current_job s) = 1
        \<and> kind (arrival_generator s) = Deterministic d
        \<and> kind (service_generator s) = Deterministic v
        \<and> (\<forall>w \<in> set (wait_times s). w = 0)
        \<and> filter (\<lambda>e. type_ev e = ARRIVAL) (event_queue s) = [Event_arrival a]
        \<and> (\<forall>k \<in> dom (active_jobs s). k < next_job_id s)
        \<and> distinct (map id_job (job_queue s))
        \<and> (\<forall>j \<in> set (job_queue s). active_jobs s (id_job j) = Some j \<and> service_time j = v)
        \<and> arrivals_chain d (job_queue s)
        \<and> (job_queue s \<noteq> [] \<longrightarrow> a = arrival_time (last (job_queue s)) + d \<and> v = d)
        \<and> (if cores_busy s ! 0 then
              (\<exists>D j. filter (\<lambda>e. type_ev e = DEPARTURE) (event_queue s)
                       = [Event_departure D (cores_current_job s ! 0) 0]
                 \<and> active_jobs s (cores_current_job s ! 0) = Some j
                 \<and> wait_time j = 0
                 \<and> cores_current_job s ! 0 \<notin> id_job ` set (job_queue s)
                 \<and> (case job_queue s of
                       [] \<Rightarrow> D + d = a + v
                     | j1 # rest \<Rightarrow> D = arrival_time j1))
            else filter (\<lambda>e. type_ev e = DEPARTURE) (event_queue s) = [] \<and> job_queue s = []))"

section \<open>Counts as real numbers\<close>

lemma of_count_real [simp]: "(of_count n :: real) = real n"
  by (induction n) simp_all

lemma of_counter_real [simp]: "(of_counter i :: real) = real_of_int i"
  by (simp add: of_counter_def)

section \<open>Generators\<close>

lemma generate_kind: "generate g = (x, g') \<Longrightarrow> kind g' = kind g \<and> lib_draws g' = lib_draws g"
  by (auto simp: generate_def split: distribution.splits)

lemma erlang_sum_nonneg: "(\<And>n. (0::real) \<le> f n) \<Longrightarrow> 0 \<le> erlang_sum f p k"
  by (induction k) simp_all

text \<open>
  What \<open>n\<close> calls return, for each class: the library's draws as they come, the
  constant, or the sums of \<open>k\<close> consecutive draws.
\<close>

lemma samples_draws:
  "kind g = Exponential lambda \<or> kind g = Uniform a b
   \<Longrightarrow> samples g n = map (\<lambda>i. lib_draws g (lib_pos g + i)) [0..<n]"
proof (induction n arbitrary: g)
  case 0
  then show ?case by simp
next
  case (Suc n)
  let ?g' = "g\<lparr>lib_pos := lib_pos g + 1\<rparr>"
  from Suc.prems have g: "generate g = (lib_draws g (lib_pos g), ?g')"
    by (auto simp: generate_def)
  from Suc.prems have "kind ?g' = Exponential lambda \<or> kind ?g' = Uniform a b"
    by simp
  from Suc.IH [OF this] have "samples ?g' n = map (\<lambda>i. lib_draws g (lib_pos g + Suc i)) [0..<n]"
    by simp
  with g show ?case
    by (simp add: map_upt_Suc del: upt_Suc)
qed

lemma samples_constant: "kind g = Deterministic v \<Longrightarrow> samples g n = replicate n v"
  by (induction n) (simp_all add: generate_def)

lemma samples_sums:
  "kind g = Erlang k lambda
   \<Longrightarrow> samples g n
       = map (\<lambda>i. erlang_sum (lib_draws g) (lib_pos g + i * nat k) (nat k)) [0..<n]"
proof (induction n arbitrary: g)
  case 0
  then show ?case by simp
next
  case (Suc n)
  let ?g' = "g\<lparr>lib_pos := lib_pos g + nat k\<rparr>"
  from Suc.prems have g: "generate g = (erlang_sum (lib_draws g) (lib_pos g) (nat k), ?g')"
    by (simp add: generate_def)
  from Suc.prems have "kind ?g' = Erlang k lambda"
    by simp
  from Suc.IH [OF this] have
    "samples ?g' n
     = map (\<lambda>i. erlang_sum (lib_draws g) (lib_pos g + Suc i * nat k) (nat k)) [0..<n]"
    by (simp add: add.assoc)
  with g show ?case
    by (simp add: map_upt_Suc del: upt_Suc)
qed

text \<open>
  C8. Construction fails with \<open>invalid_argument\<close>, and yields no object, exactly when
  the arguments are invalid: the simulator when \<open>num_cores \<le> 0\<close>, the exponential
  generator when \<open>lambda \<le> 0\<close>, the uniform generator when \<open>a \<ge> b\<close>, the Erlang
  generator when \<open>k \<le> 0\<close> or \<open>lambda \<le> 0\<close>. Every other argument
  combination yields an object.
\<close>

theorem construction_fails_iff_invalid:
  fixes arrival_gen service_gen :: "real RandomGenerator" and lambda a b lam :: real
  shows
  "(Simulator_new arrival_gen service_gen cores buffer_cap = Inl invalid_argument) = (cores \<le> 0)
   \<and> (\<exists>sim. Simulator_new arrival_gen service_gen cores buffer_cap = Inr sim) = (0 < cores)
   \<and> (ExponentialGenerator lambda rd = Inl invalid_argument) = (lambda \<le> 0)
   \<and> (\<exists>g. ExponentialGenerator lambda rd = Inr g) = (0 < lambda)
   \<and> (UniformGenerator a b rd = Inl invalid_argument) = (a \<ge> b)
   \<and> (\<exists>g. UniformGenerator a b rd = Inr g) = (a < b)
   \<and> (ErlangGenerator k lam rd = Inl invalid_argument) = (k \<le> 0 \<or> lam \<le> 0)
   \<and> (\<exists>g. ErlangGenerator k lam rd = Inr g) = (0 < k \<and> 0 < lam)"
  by (auto simp: Simulator_new_def ExponentialGenerator_def UniformGenerator_def
                 ErlangGenerator_def)

text \<open>
  C6, as the code has it. \<open>generate()\<close> checks no value and changes none. An
  exponential and a uniform generator return the draws of the library's distribution
  object as they come; \<open>Deterministic(v)\<close> returns \<open>v\<close>; \<open>Erlang(k, lambda)\<close>
  returns the sum of \<open>k\<close> consecutive draws of the library's exponential distribution,
  starting from 0. So the samples of \<open>Deterministic(v)\<close> are non-negative exactly when
  \<open>v \<ge> 0\<close>, those of an Erlang generator whenever the library's draws are non-negative,
  and those of an exponential or a uniform generator are non-negative exactly when the
  library's draws are; no constructor asks for \<open>a \<ge> 0\<close> or \<open>v \<ge> 0\<close>.
\<close>

theorem samples_are_library_draws:
  "(kind g = Exponential lambda \<or> kind g = Uniform a b
      \<longrightarrow> samples g n = map (\<lambda>i. lib_draws g (lib_pos g + i)) [0..<n])
   \<and> (kind g = Deterministic v
      \<longrightarrow> samples g n = replicate n v
        \<and> ((\<forall>x \<in> set (samples g (Suc n)). 0 \<le> x) = (0 \<le> v)))
   \<and> (kind g = Erlang k lam
      \<longrightarrow> samples g n
            = map (\<lambda>i. erlang_sum (lib_draws g) (lib_pos g + i * nat k) (nat k)) [0..<n]
        \<and> ((\<forall>i. 0 \<le> lib_draws g i) \<longrightarrow> (\<forall>x \<in> set (samples g n). 0 \<le> x)))"
proof (intro conjI impI)
  assume "kind g = Exponential lambda \<or> kind g = Uniform a b"
  then show "samples g n = map (\<lambda>i. lib_draws g (lib_pos g + i)) [0..<n]"
    by (rule samples_draws)
next
  assume "kind g = Deterministic v"
  then show "samples g n = replicate n v"
    by (rule samples_constant)
next
  assume "kind g = Deterministic v"
  then have "samples g (Suc n) = replicate (Suc n) v"
    by (rule samples_constant)
  then show "(\<forall>x \<in> set (samples g (Suc n)). 0 \<le> x) = (0 \<le> v)"
    by (simp only: set_replicate_Suc) simp
next
  assume "kind g = Erlang k lam"
  then show "samples g n
      = map (\<lambda>i. erlang_sum (lib_draws g) (lib_pos g + i * nat k) (nat k)) [0..<n]"
    by (rule samples_sums)
next
  assume "kind g = Erlang k lam" and "\<forall>i. 0 \<le> lib_draws g i"
  then show "\<forall>x \<in> set (samples g n). 0 \<le> x"
    by (auto simp: samples_sums erlang_sum_nonneg)
qed

theorem samples_are_library_draws_witness:
  "samples \<lparr>kind = Uniform 1 2, lib_draws = (\<lambda>n. 1 + 1 / (2 + real n)), lib_pos = 0\<rparr> 2
     = [3/2, 4/3]
   \<and> samples \<lparr>kind = Deterministic 4, lib_draws = (\<lambda>_. 0), lib_pos = 0\<rparr> 2 = [4, 4]
   \<and> samples \<lparr>kind = Erlang 2 1, lib_draws = (\<lambda>n. real n), lib_pos = 0\<rparr> 2 = [1, 5]
   \<and> list_all (\<lambda>x. 0 \<le> x)
        (samples \<lparr>kind = Erlang 2 1, lib_draws = (\<lambda>n. real n), lib_pos = 0\<rparr> 2)"
proof -
  let ?u = "\<lparr>kind = Uniform 1 2, lib_draws = (\<lambda>n. 1 + 1 / (2 + real n)), lib_pos = 0\<rparr>"
  let ?d = "\<lparr>kind = Deterministic (4::real), lib_draws = (\<lambda>_. 0::real), lib_pos = 0\<rparr>"
  let ?e = "\<lparr>kind = Erlang 2 1, lib_draws = (\<lambda>n. real n), lib_pos = 0\<rparr>"
  have upt: "[0..<2] = [0, Suc 0]"
    by (simp add: upt_rec)
  have sums: "erlang_sum real 0 2 = 1" "erlang_sum real 2 2 = 5"
    by (simp_all add: numeral_2_eq_2)
  from samples_are_library_draws [of ?u 1 1 2 2]
  have u: "samples ?u 2 = [3/2, 4/3]"
    by (simp add: upt)
  from samples_are_library_draws [of ?d _ _ _ 2 4]
  have d: "samples ?d 2 = [4, 4]"
    by (simp add: numeral_2_eq_2)
  from samples_are_library_draws [of ?e _ _ _ 2 _ 2 1]
  have e: "samples ?e 2 = [1, 5]" "\<forall>x \<in> set (samples ?e 2). 0 \<le> x"
    by (simp_all add: upt sums)
  from u d e show ?thesis
    by (simp add: list_all_iff)
qed

text \<open>
  C6 as stated fails: \<open>Deterministic(-1)\<close> is constructed, no parameter being checked,
  and \<open>generate()\<close> returns \<open>-1\<close>. \<open>Uniform(-5, -1)\<close> is accepted by the constructor,
  which asks only for \<open>a < b\<close>, and \<open>generate()\<close> returns what the library's uniform
  distribution between \<open>-5\<close> and \<open>-1\<close> hands out, here \<open>-3\<close>.
\<close>

theorem negative_sample:
  "DeterministicGenerator (-1 :: real)
     = Inr \<lparr>kind = Deterministic (-1), lib_draws = (\<lambda>_. 0), lib_pos = 0\<rparr>
   \<and> fst (generate \<lparr>kind = Deterministic (-1 :: real), lib_draws = (\<lambda>_. 0), lib_pos = 0\<rparr>) = -1
   \<and> UniformGenerator (-5 :: real) (-1) (\<lambda>_. -3)
     = Inr \<lparr>kind = Uniform (-5) (-1), lib_draws = (\<lambda>_. -3), lib_pos = 0\<rparr>
   \<and> fst (generate \<lparr>kind = Uniform (-5 :: real) (-1), lib_draws = (\<lambda>_. -3), lib_pos = 0\<rparr>) = -3"
  by (simp add: UniformGenerator_def DeterministicGenerator_def generate_def)

section \<open>Statistics\<close>

lemma fold_add_sum_list: "fold (\<lambda>t acc. acc + f t) xs (a::real) = a + sum_list (map f xs)"
  by (induction xs arbitrary: a) simp_all

lemma avg_wait_time_mean: "wait_times s \<noteq> [] \<Longrightarrow> avg_wait_time s = sample_mean (wait_times s)"
  using fold_add_sum_list [of "\<lambda>t. t" "wait_times s" 0]
  by (simp add: avg_wait_time_def sample_mean_def)

lemma avg_system_time_mean:
  "system_times s \<noteq> [] \<Longrightarrow> avg_system_time s = sample_mean (system_times s)"
  using fold_add_sum_list [of "\<lambda>t. t" "system_times s" 0]
  by (simp add: avg_system_time_def sample_mean_def)

text \<open>
  C9. \<open>wait_time_variance()\<close> and \<open>system_time_variance()\<close> return the
  Bessel-corrected sample variance of the recorded samples when there are at least two
  of them, and 0 when there are fewer.
\<close>

theorem variance_is_bessel_corrected:
  fixes s :: "real Simulator"
  shows
  "wait_time_variance s =
     (if length (wait_times s) < 2 then 0 else sample_variance (wait_times s))
   \<and> system_time_variance s =
     (if length (system_times s) < 2 then 0 else sample_variance (system_times s))"
proof -
  have w: "wait_time_variance s = sample_variance (wait_times s)"
    if "\<not> length (wait_times s) < 2"
  proof -
    from that have ne: "wait_times s \<noteq> []" by auto
    have "real (length (wait_times s) - 1) = real (length (wait_times s)) - 1"
      using that by (simp add: of_nat_diff)
    then show ?thesis
      using that
        fold_add_sum_list [of "\<lambda>t. (t - avg_wait_time s) * (t - avg_wait_time s)" "wait_times s" 0]
      by (simp add: wait_time_variance_def sample_variance_def avg_wait_time_mean [OF ne]
                    power2_eq_square)
  qed
  have u: "system_time_variance s = sample_variance (system_times s)"
    if "\<not> length (system_times s) < 2"
  proof -
    from that have ne: "system_times s \<noteq> []" by auto
    have "real (length (system_times s) - 1) = real (length (system_times s)) - 1"
      using that by (simp add: of_nat_diff)
    then show ?thesis
      using that
        fold_add_sum_list [of "\<lambda>t. (t - avg_system_time s) * (t - avg_system_time s)"
                              "system_times s" 0]
      by (simp add: system_time_variance_def sample_variance_def avg_system_time_mean [OF ne]
                    power2_eq_square)
  qed
  show ?thesis
    using w u by (simp add: wait_time_variance_def system_time_variance_def)
qed

section \<open>Queue disciplines\<close>

subsection \<open>The priority discipline\<close>

lemma least_priority_mem: "least_priority p xs \<in> set (p # xs)"
  by (induction xs arbitrary: p) (auto split: if_splits)

lemma least_priority_le: "priority (least_priority p xs) \<le> priority p"
proof (induction xs arbitrary: p)
  case Nil
  then show ?case by simp
next
  case (Cons x xs)
  show ?case using Cons.IH [of x] Cons.IH [of p] by auto
qed

lemma least_priority_min: "y \<in> set xs \<Longrightarrow> priority (least_priority p xs) \<le> priority y"
proof (induction xs arbitrary: p)
  case Nil
  then show ?case by simp
next
  case (Cons x xs)
  show ?case
  proof (cases "y = x")
    case True
    then show ?thesis using least_priority_le [of x xs] least_priority_le [of p xs] by auto
  next
    case False
    with Cons.prems have "y \<in> set xs" by simp
    then show ?thesis using Cons.IH by auto
  qed
qed

lemma first_least_ok: "priority_top_ok first_least"
  unfolding priority_top_ok_def first_least_def
proof (intro allI impI conjI ballI)
  fix n :: nat and q :: "'a PriorityItem list"
  assume "q \<noteq> []"
  then obtain p ps where q: "q = p # ps" by (cases q) auto
  show "least_priority (hd q) (tl q) \<in> set q"
    using least_priority_mem [of p ps] by (simp add: q)
  fix y assume "y \<in> set q"
  then show "priority (least_priority (hd q) (tl q)) \<le> priority y"
    using least_priority_le [of p ps] least_priority_min [of y ps p] by (auto simp: q)
qed

lemma keys_from_lower: "keys_from k ps \<Longrightarrow> y \<in> set ps \<Longrightarrow> k \<le> priority y"
proof (induction ps arbitrary: k)
  case Nil
  then show ?case by simp
next
  case (Cons p ps)
  then show ?case by (cases "y = p") (auto dest: Cons.IH)
qed

lemma keys_from_push:
  "keys_from k q \<Longrightarrow> keys_from k (q @ [\<lparr>item = x, priority = k + int (length q)\<rparr>])"
proof (induction q arbitrary: k)
  case Nil
  then show ?case by simp
next
  case (Cons p ps)
  from Cons.prems Cons.IH [of "k + 1"] show ?case by (simp add: add.assoc)
qed

lemma pick_is_head:
  assumes ok: "priority_top_ok pick" and keys: "keys_from k (p # ps)"
  shows "pick n (p # ps) = p"
proof -
  from ok have "pick n (p # ps) \<in> set (p # ps)
                \<and> (\<forall>y \<in> set (p # ps). priority (pick n (p # ps)) \<le> priority y)"
    unfolding priority_top_ok_def by blast
  then have mem: "pick n (p # ps) \<in> set (p # ps)"
    and le: "priority (pick n (p # ps)) \<le> priority p"
    by simp_all
  have "k < priority y" if "y \<in> set ps" for y
    using keys keys_from_lower [of "k + 1" ps y] that by simp
  then have "pick n (p # ps) \<notin> set ps"
    using le keys by fastforce
  with mem show ?thesis by simp
qed

lemma priority_pop_head:
  assumes ok: "priority_top_ok pick" and keys: "keys_from k (p # ps)"
  shows "PriorityStrategy_pop pick n (p # ps) = Inr (item p, ps)"
  using pick_is_head [OF ok keys, of n] by (simp add: PriorityStrategy_pop_def)

lemma priority_run_fifo:
  assumes ok: "priority_top_ok pick"
  shows "keys_from (int k) q \<Longrightarrow> refill_on_empty (length q) k ops
         \<Longrightarrow> priority_run pick m q ops = fifo_run (map item q) ops"
proof (induction ops arbitrary: q k m)
  case Nil
  then show ?case by simp
next
  case (Cons a ops)
  show ?case
  proof (cases a)
    case (Push x)
    with Cons.prems have fresh: "q = [] \<or> k = 0"
      and rest: "refill_on_empty (Suc (length q)) 0 ops"
      by simp_all
    from fresh Cons.prems(1) have keys0: "keys_from (int 0) q"
      by auto
    have keys': "keys_from (int 0) (PriorityStrategy_push q x)"
      using keys_from_push [OF keys0, of x] by (simp add: PriorityStrategy_push_def)
    have "priority_run pick (Suc m) (PriorityStrategy_push q x) ops
          = fifo_run (map item (PriorityStrategy_push q x)) ops"
      by (rule Cons.IH [OF keys']) (simp add: PriorityStrategy_push_def rest)
    then show ?thesis
      by (simp add: Push PriorityStrategy_push_def FIFOStrategy_push_def)
  next
    case Pop
    show ?thesis
    proof (cases q)
      case Nil
      with Cons.prems Pop have "refill_on_empty (length q) 0 ops" by simp
      from Cons.IH [of 0 q, OF _ this] Nil show ?thesis
        by (simp add: Pop PriorityStrategy_pop_def FIFOStrategy_pop_def)
    next
      case (Cons p ps)
      with Cons.prems Pop have rest: "refill_on_empty (length ps) (Suc k) ops" by simp
      from Cons.prems(1) have keys': "keys_from (int (Suc k)) ps"
        by (simp add: Cons add.commute)
      from Cons.prems(1) have "PriorityStrategy_pop pick m (p # ps) = Inr (item p, ps)"
        unfolding Cons by (rule priority_pop_head [OF ok])
      with Cons.IH [OF keys' rest] show ?thesis
        by (simp add: Pop Cons FIFOStrategy_pop_def)
    qed
  qed
qed

text \<open>
  C5, as the code has it. The priority discipline gives each pushed item the number of
  items buffered at that moment as its key (\<open>queue_.size()\<close>), not a push sequence
  number. Whenever the schedule pushes only onto an empty buffer or with no pop served
  since the push before, the keys count up in push order and the pops return what a
  FIFO discipline returns for the same schedule, whatever the heap does among equal keys.
\<close>

theorem priority_is_fifo_when_refilled_on_empty:
  assumes "priority_top_ok pick" and "refill_on_empty 0 0 ops"
  shows "priority_run pick 0 [] ops = fifo_run [] ops"
  using priority_run_fifo [OF assms(1), of 0 "[]" ops 0] assms(2) by simp

theorem priority_is_fifo_witness:
  "priority_top_ok (first_least :: nat priority_top)
   \<and> refill_on_empty 0 0 [Push (1::nat), Push 2, Pop, Pop, Push 3, Pop]
   \<and> priority_run first_least 0 [] [Push (1::nat), Push 2, Pop, Pop, Push 3, Pop]
       = fifo_run [] [Push 1, Push 2, Pop, Pop, Push 3, Pop]
   \<and> fifo_run [] [Push (1::nat), Push 2, Pop, Pop, Push 3, Pop] = [Inr 1, Inr 2, Inr 3]"
proof -
  have r: "refill_on_empty 0 0 [Push (1::nat), Push 2, Pop, Pop, Push 3, Pop]" by simp
  from priority_is_fifo_when_refilled_on_empty [OF first_least_ok r] first_least_ok r
  show ?thesis by (simp add: FIFOStrategy_push_def FIFOStrategy_pop_def)
qed

text \<open>
  C5 as stated fails. Push 1, 2, 3, pop twice, push 4: item 4 is pushed when one item is
  buffered and gets key 1, below the key 2 of item 3, so the next pop returns 4 where
  FIFO returns 3.
\<close>

theorem priority_differs_from_fifo:
  "priority_run first_least 0 [] [Push (1::nat), Push 2, Push 3, Pop, Pop, Push 4, Pop]
     = [Inr 1, Inr 2, Inr 4]
   \<and> fifo_run [] [Push (1::nat), Push 2, Push 3, Pop, Pop, Push 4, Pop]
     = [Inr 1, Inr 2, Inr 3]
   \<and> PriorityStrategy_push [\<lparr>item = 3::nat, priority = 2\<rparr>] 4
     = [\<lparr>item = 3, priority = 2\<rparr>, \<lparr>item = 4, priority = 1\<rparr>]"
  by (simp add: PriorityStrategy_push_def PriorityStrategy_pop_def first_least_def
                FIFOStrategy_push_def FIFOStrategy_pop_def)

subsection \<open>The round-robin discipline\<close>

lemma cursor_ok_new: "RoundRobinStrategy k = Inr s \<Longrightarrow> cursor_ok s \<and> length (queues s) = k"
  by (auto simp: RoundRobinStrategy_def cursor_ok_def split: if_splits)

lemma cursor_ok_push:
  "cursor_ok s \<Longrightarrow> cursor_ok (RoundRobinStrategy_push s x)
     \<and> length (queues (RoundRobinStrategy_push s x)) = length (queues s)"
  by (simp add: cursor_ok_def RoundRobinStrategy_push_def)

text \<open>What the scan returns, by computation induction over the loop.\<close>

lemma pop_from_Inr:
  "RoundRobinStrategy_pop_from s i = Inr (x, s') \<Longrightarrow>
     \<exists>j. i \<le> j \<and> j < length (queues s)
       \<and> (\<forall>l. i \<le> l \<and> l < j \<longrightarrow> queues s ! ((current_queue s + l) mod length (queues s)) = [])
       \<and> queues s ! ((current_queue s + j) mod length (queues s)) \<noteq> []
       \<and> x = hd (queues s ! ((current_queue s + j) mod length (queues s)))
       \<and> queues s' = (queues s)[(current_queue s + j) mod length (queues s) :=
                         tl (queues s ! ((current_queue s + j) mod length (queues s)))]
       \<and> current_queue s' = ((current_queue s + j) mod length (queues s) + 1) mod length (queues s)"
proof (induction s i rule: RoundRobinStrategy_pop_from.induct)
  case (1 s i)
  show ?case
  proof (cases "i < length (queues s)")
    case False
    with "1.prems" show ?thesis by (simp add: RoundRobinStrategy_pop_from.simps [of s i])
  next
    case in_range: True
    show ?thesis
    proof (cases "queues s ! ((current_queue s + i) mod length (queues s)) \<noteq> []")
      case True
      with in_range "1.prems" have
        "x = hd (queues s ! ((current_queue s + i) mod length (queues s)))"
        "s' = s\<lparr>queues := (queues s)[(current_queue s + i) mod length (queues s) :=
                                 tl (queues s ! ((current_queue s + i) mod length (queues s)))],
                  current_queue := ((current_queue s + i) mod length (queues s) + 1)
                                     mod length (queues s)\<rparr>"
        by (simp_all add: RoundRobinStrategy_pop_from.simps [of s i])
      with in_range True show ?thesis
        by (intro exI [of _ i]) auto
    next
      case False
      with in_range "1.prems" have "RoundRobinStrategy_pop_from s (i + 1) = Inr (x, s')"
        by (simp add: RoundRobinStrategy_pop_from.simps [of s i])
      from "1.IH" [OF in_range _ this] False obtain j where
        j: "i + 1 \<le> j" "j < length (queues s)"
        "\<forall>l. i + 1 \<le> l \<and> l < j \<longrightarrow> queues s ! ((current_queue s + l) mod length (queues s)) = []"
        "queues s ! ((current_queue s + j) mod length (queues s)) \<noteq> []"
        "x = hd (queues s ! ((current_queue s + j) mod length (queues s)))"
        "queues s' = (queues s)[(current_queue s + j) mod length (queues s) :=
                         tl (queues s ! ((current_queue s + j) mod length (queues s)))]"
        "current_queue s' = ((current_queue s + j) mod length (queues s) + 1) mod length (queues s)"
        by auto
      have "\<forall>l. i \<le> l \<and> l < j \<longrightarrow> queues s ! ((current_queue s + l) mod length (queues s)) = []"
      proof (intro allI impI)
        fix l assume l: "i \<le> l \<and> l < j"
        show "queues s ! ((current_queue s + l) mod length (queues s)) = []"
        proof (cases "l = i")
          case True
          with False show ?thesis by simp
        next
          case False
          with l j(3) show ?thesis by simp
        qed
      qed
      with j show ?thesis by (intro exI [of _ j]) simp
    qed
  qed
qed

lemma pop_from_Inl:
  "RoundRobinStrategy_pop_from s i = Inl e \<Longrightarrow>
     e = runtime_error
     \<and> (\<forall>l. i \<le> l \<and> l < length (queues s)
            \<longrightarrow> queues s ! ((current_queue s + l) mod length (queues s)) = [])"
proof (induction s i rule: RoundRobinStrategy_pop_from.induct)
  case (1 s i)
  show ?case
  proof (cases "i < length (queues s)")
    case False
    with "1.prems" show ?thesis by (auto simp: RoundRobinStrategy_pop_from.simps [of s i])
  next
    case in_range: True
    from in_range "1.prems" have
      here: "queues s ! ((current_queue s + i) mod length (queues s)) = []"
      and rest: "RoundRobinStrategy_pop_from s (i + 1) = Inl e"
      by (simp_all add: RoundRobinStrategy_pop_from.simps [of s i] split: if_splits)
    from "1.IH" [OF in_range _ rest] here have
      e: "e = runtime_error"
      and later: "\<forall>l. i + 1 \<le> l \<and> l < length (queues s)
            \<longrightarrow> queues s ! ((current_queue s + l) mod length (queues s)) = []"
      by auto
    have "queues s ! ((current_queue s + l) mod length (queues s)) = []"
      if "i \<le> l \<and> l < length (queues s)" for l
      using that here later by (cases "l = i") auto
    with e show ?thesis by blast
  qed
qed

text \<open>The scan visits every sub-queue.\<close>

lemma scan_reaches:
  assumes "c < k" and "m < k"
  shows "\<exists>l < k. (c + l) mod k = (m::nat)"
proof (cases "c \<le> m")
  case True
  with assms show ?thesis by (intro exI [of _ "m - c"]) simp
next
  case False
  with assms have "(c + (k + m - c)) mod k = m" by simp
  moreover from False assms have "k + m - c < k" by simp
  ultimately show ?thesis by blast
qed

lemma pop_fails_iff_empty:
  assumes "cursor_ok s"
  shows "(\<exists>e. RoundRobinStrategy_pop s = Inl e) = RoundRobinStrategy_empty s"
proof
  assume "\<exists>e. RoundRobinStrategy_pop s = Inl e"
  then obtain e where "RoundRobinStrategy_pop_from s 0 = Inl e"
    by (auto simp: RoundRobinStrategy_pop_def)
  from pop_from_Inl [OF this]
  have all: "\<forall>l < length (queues s). queues s ! ((current_queue s + l) mod length (queues s)) = []"
    by simp
  show "RoundRobinStrategy_empty s"
    unfolding RoundRobinStrategy_empty_def
  proof
    fix q assume "q \<in> set (queues s)"
    then obtain m where m: "m < length (queues s)" "q = queues s ! m"
      by (auto simp: in_set_conv_nth)
    from scan_reaches [of "current_queue s" "length (queues s)" m] assms m(1)
    obtain l where "l < length (queues s)" "(current_queue s + l) mod length (queues s) = m"
      by (auto simp: cursor_ok_def)
    with all m show "q = []" by auto
  qed
next
  assume empty: "RoundRobinStrategy_empty s"
  show "\<exists>e. RoundRobinStrategy_pop s = Inl e"
  proof (cases "RoundRobinStrategy_pop s")
    case (Inl e)
    then show ?thesis by blast
  next
    case (Inr r)
    obtain x s' where "r = (x, s')" by (cases r)
    with Inr have "RoundRobinStrategy_pop_from s 0 = Inr (x, s')"
      by (simp add: RoundRobinStrategy_pop_def)
    from pop_from_Inr [OF this] obtain j where
      "j < length (queues s)"
      "queues s ! ((current_queue s + j) mod length (queues s)) \<noteq> []"
      by auto
    moreover from this(1) have "0 < length (queues s)" by auto
    then have "(current_queue s + j) mod length (queues s) < length (queues s)"
      by simp
    ultimately have "\<exists>q \<in> set (queues s). q \<noteq> []"
      by (metis nth_mem)
    with empty show ?thesis by (simp add: RoundRobinStrategy_empty_def)
  qed
qed

lemma cursor_ok_pop:
  assumes "cursor_ok s" and "RoundRobinStrategy_pop s = Inr (x, s')"
  shows "cursor_ok s' \<and> length (queues s') = length (queues s)"
proof -
  from assms(2) have "RoundRobinStrategy_pop_from s 0 = Inr (x, s')"
    by (simp add: RoundRobinStrategy_pop_def)
  from pop_from_Inr [OF this] obtain j where
    q: "queues s' = (queues s)[(current_queue s + j) mod length (queues s) :=
                         tl (queues s ! ((current_queue s + j) mod length (queues s)))]"
    and c: "current_queue s' = ((current_queue s + j) mod length (queues s) + 1) mod length (queues s)"
    by auto
  from q have len: "length (queues s') = length (queues s)" by simp
  from assms(1) have "0 < length (queues s)" by (simp add: cursor_ok_def)
  with c len have "current_queue s' < length (queues s')" by simp
  with len assms(1) show ?thesis by (auto simp: cursor_ok_def)
qed

lemma cursor_ok_state:
  "cursor_ok s \<Longrightarrow> cursor_ok (round_robin_state s ops)
     \<and> length (queues (round_robin_state s ops)) = length (queues s)"
proof (induction ops arbitrary: s)
  case Nil
  then show ?case by simp
next
  case (Cons a ops)
  show ?case
  proof (cases a)
    case (Push x)
    from cursor_ok_push [OF Cons.prems, of x] Cons.IH [of "RoundRobinStrategy_push s x"]
    show ?thesis by (simp add: Push)
  next
    case Pop
    show ?thesis
    proof (cases "RoundRobinStrategy_pop s")
      case (Inl e)
      with Cons.IH [OF Cons.prems] show ?thesis by (simp add: Pop)
    next
      case (Inr r)
      obtain x s' where r: "r = (x, s')" by (cases r)
      from cursor_ok_pop [OF Cons.prems, of x s'] Inr r Cons.IH [of s']
      show ?thesis by (simp add: Pop)
    qed
  qed
qed

lemma filter_index: "c < n \<Longrightarrow> filter (\<lambda>i. i = c) [0..<n] = [c]"
proof (induction n)
  case 0
  then show ?case by simp
next
  case (Suc n)
  show ?case
  proof (cases "c = n")
    case True
    have "filter (\<lambda>i. i = n) [0..<n] = []"
      by (rule filter_False) simp
    with True show ?thesis by simp
  next
    case False
    with Suc show ?thesis by simp
  qed
qed

text \<open>A push adds the item at the back of the sub-queue at the cursor, and nowhere else.\<close>

lemma received_push:
  assumes "cursor_ok s"
  shows "received (queues s) (queues (RoundRobinStrategy_push s x)) x = [current_queue s]"
proof -
  let ?qs = "queues s" and ?c = "current_queue s"
  from assms have c: "?c < length ?qs" by (simp add: cursor_ok_def)
  have "filter (\<lambda>i. (?qs[?c := ?qs ! ?c @ [x]]) ! i = ?qs ! i @ [x]) [0..<length ?qs]
        = filter (\<lambda>i. i = ?c) [0..<length ?qs]"
  proof (rule filter_cong)
    fix i
    assume "i \<in> set [0..<length ?qs]"
    with c show "((?qs[?c := ?qs ! ?c @ [x]]) ! i = ?qs ! i @ [x]) = (i = ?c)"
      by (auto simp: nth_list_update)
  qed simp
  also from c have "\<dots> = [?c]" by (rule filter_index)
  finally show ?thesis by (simp add: received_def RoundRobinStrategy_push_def)
qed

lemma consecutive_pushes:
  "cursor_ok s \<Longrightarrow> push_destinations s (map Push xs)
     = map (\<lambda>i. (current_queue s + i) mod length (queues s)) [0..<length xs]"
proof (induction xs arbitrary: s)
  case Nil
  then show ?case by simp
next
  case (Cons x xs)
  let ?k = "length (queues s)"
  let ?s' = "RoundRobinStrategy_push s x"
  from cursor_ok_push [OF Cons.prems, of x]
  have ok': "cursor_ok ?s'" and len': "length (queues ?s') = ?k" by simp_all
  have cur': "current_queue ?s' = (current_queue s + 1) mod ?k"
    by (simp add: RoundRobinStrategy_push_def)
  have "push_destinations ?s' (map Push xs)
        = map (\<lambda>i. ((current_queue s + 1) mod ?k + i) mod ?k) [0..<length xs]"
    unfolding Cons.IH [OF ok'] len' cur' ..
  also have "\<dots> = map (\<lambda>i. (current_queue s + Suc i) mod ?k) [0..<length xs]"
    by (rule map_cong) (simp_all add: mod_add_left_eq)
  also have "\<dots> = map (\<lambda>i. (current_queue s + i) mod ?k) (map Suc [0..<length xs])"
    by (simp only: map_map comp_def)
  finally have rest: "push_destinations ?s' (map Push xs)
        = map (\<lambda>i. (current_queue s + i) mod ?k) (map Suc [0..<length xs])" .
  have "[0..<Suc (length xs)] = 0 # [Suc 0..<Suc (length xs)]"
    by (rule upt_conv_Cons) simp
  then have split: "[0..<length (x # xs)] = 0 # map Suc [0..<length xs]"
    by (simp only: map_Suc_upt length_Cons)
  from Cons.prems have here: "(current_queue s + 0) mod ?k = current_queue s"
    by (simp add: cursor_ok_def)
  have "push_destinations s (map Push (x # xs))
        = current_queue s # push_destinations ?s' (map Push xs)"
    by (simp add: received_push [OF Cons.prems])
  also have "\<dots> = map (\<lambda>i. (current_queue s + i) mod ?k) (0 # map Suc [0..<length xs])"
    unfolding rest using here by (simp only: list.map)
  finally show ?case unfolding split .
qed


text \<open>
  C7, as the code has it. \<open>RoundRobin(k)\<close> keeps one cursor, \<open>current_queue_\<close>,
  for both operations. After any sequence of pushes and pops: the cursor points at one of
  the \<open>k\<close> sub-queues; \<open>push\<close> adds the item at the back of the sub-queue at the
  cursor, leaves the other sub-queues as they are, and moves the cursor on by one,
  cyclically; so the sub-queues that receive the items of pushes with no pop between them
  are cyclically consecutive, starting at the cursor; \<open>pop\<close> fails exactly when all
  sub-queues are empty; and a successful \<open>pop\<close> scans from the cursor, returns the
  front item of the first non-empty sub-queue, removes it, and leaves the cursor on the
  sub-queue after the served one.
\<close>

theorem round_robin_single_cursor:
  assumes new: "RoundRobinStrategy k = Inr s0" and s: "s = round_robin_state s0 ops"
  shows "length (queues s) = k \<and> current_queue s < k
     \<and> queues (RoundRobinStrategy_push s y)
         = (queues s)[current_queue s := queues s ! current_queue s @ [y]]
     \<and> current_queue (RoundRobinStrategy_push s y) = (current_queue s + 1) mod k
     \<and> received (queues s) (queues (RoundRobinStrategy_push s y)) y = [current_queue s]
     \<and> push_destinations s (map Push xs)
         = map (\<lambda>i. (current_queue s + i) mod k) [0..<length xs]
     \<and> (\<exists>e. RoundRobinStrategy_pop s = Inl e) = RoundRobinStrategy_empty s
     \<and> (\<forall>x s'. RoundRobinStrategy_pop s = Inr (x, s') \<longrightarrow>
          (\<exists>j<k. (\<forall>l<j. queues s ! ((current_queue s + l) mod k) = [])
             \<and> queues s ! ((current_queue s + j) mod k) \<noteq> []
             \<and> x = hd (queues s ! ((current_queue s + j) mod k))
             \<and> queues s' = (queues s)[(current_queue s + j) mod k :=
                               tl (queues s ! ((current_queue s + j) mod k))]
             \<and> current_queue s' = ((current_queue s + j) mod k + 1) mod k))"
proof -
  from cursor_ok_new [OF new] have "cursor_ok s0" and "length (queues s0) = k" by simp_all
  with cursor_ok_state [of s0 ops] s have ok: "cursor_ok s" and len: "length (queues s) = k"
    by simp_all
  from ok len have cur: "current_queue s < k" by (simp add: cursor_ok_def)
  have pop: "\<exists>j<k. (\<forall>l<j. queues s ! ((current_queue s + l) mod k) = [])
             \<and> queues s ! ((current_queue s + j) mod k) \<noteq> []
             \<and> x = hd (queues s ! ((current_queue s + j) mod k))
             \<and> queues s' = (queues s)[(current_queue s + j) mod k :=
                               tl (queues s ! ((current_queue s + j) mod k))]
             \<and> current_queue s' = ((current_queue s + j) mod k + 1) mod k"
    if "RoundRobinStrategy_pop s = Inr (x, s')" for x s'
  proof -
    from that have "RoundRobinStrategy_pop_from s 0 = Inr (x, s')"
      by (simp add: RoundRobinStrategy_pop_def)
    from pop_from_Inr [OF this] show ?thesis
      unfolding len by simp
  qed
  have push: "queues (RoundRobinStrategy_push s y)
         = (queues s)[current_queue s := queues s ! current_queue s @ [y]]"
    "current_queue (RoundRobinStrategy_push s y) = (current_queue s + 1) mod k"
    using len by (simp_all add: RoundRobinStrategy_push_def)
  from len cur push received_push [OF ok, of y] consecutive_pushes [OF ok, of xs]
    pop_fails_iff_empty [OF ok] pop
  show ?thesis by (simp only: len) blast
qed

theorem round_robin_single_cursor_witness:
  "(RoundRobinStrategy 2 :: sim_error + nat RoundRobinStrategy)
     = Inr \<lparr>queues = [[], []], current_queue = 0\<rparr>
   \<and> round_robin_state \<lparr>queues = [[], []], current_queue = 0\<rparr> [Push (1::nat), Push 2, Pop]
     = \<lparr>queues = [[], [2]], current_queue = 1\<rparr>
   \<and> RoundRobinStrategy_push \<lparr>queues = [[], [2::nat]], current_queue = 1\<rparr> 3
     = \<lparr>queues = [[], [2, 3]], current_queue = 0\<rparr>
   \<and> received [[], [2::nat]] [[], [2, 3]] 3 = [1]
   \<and> push_destinations \<lparr>queues = [[], [2::nat]], current_queue = 1\<rparr> (map Push [3, 4, 5])
     = [1, 0, 1]
   \<and> RoundRobinStrategy_pop \<lparr>queues = [[], [2::nat]], current_queue = 1\<rparr>
     = Inr (2, \<lparr>queues = [[], []], current_queue = 0\<rparr>)"
proof -
  let ?s = "\<lparr>queues = [[], [2::nat]], current_queue = 1\<rparr>"
  have new: "(RoundRobinStrategy 2 :: sim_error + nat RoundRobinStrategy)
     = Inr \<lparr>queues = [[], []], current_queue = 0\<rparr>"
    by code_simp
  have s: "?s = round_robin_state \<lparr>queues = [[], []], current_queue = 0\<rparr>
                  [Push (1::nat), Push 2, Pop]"
    by code_simp
  have pop: "RoundRobinStrategy_pop ?s = Inr (2, \<lparr>queues = [[], []], current_queue = 0\<rparr>)"
    by code_simp
  have push: "RoundRobinStrategy_push ?s 3 = \<lparr>queues = [[], [2, 3]], current_queue = 0\<rparr>"
    by code_simp
  note facts = round_robin_single_cursor [OF new s, of 3 "[3, 4, 5]"]
  from facts have "received (queues ?s) (queues (RoundRobinStrategy_push ?s 3)) 3
                   = [current_queue ?s]"
    by blast
  then have received: "received [[], [2::nat]] [[], [2, 3]] 3 = [1]"
    unfolding push by simp
  from facts have "push_destinations ?s (map Push [3, 4, 5])
                   = map (\<lambda>i. (current_queue ?s + i) mod 2) [0..<length [3::nat, 4, 5]]"
    by blast
  also have "\<dots> = [1, 0, 1]"
    by code_simp
  finally have destinations: "push_destinations ?s (map Push [3, 4, 5]) = [1, 0, 1]" .
  from new s [symmetric] push received destinations pop show ?thesis
    by blast
qed

text \<open>
  C7 as stated fails, because a pop moves the cursor the next push uses, and a push
  moves the cursor the next pop scans from. With three sub-queues, push 1, push 2, pop,
  push 3 sends the pushes to sub-queues 0, 1, 1, not 0, 1, 2. With two sub-queues, after
  pushing 1, 2, 3, 4, a pop serves sub-queue 0 (item 1); a push of 5 follows; the next pop
  scans from sub-queue 0 again and returns 3, where a scan from the index after the last
  served one returns 2.
\<close>

theorem round_robin_not_cyclic:
  "(RoundRobinStrategy 3 :: sim_error + nat RoundRobinStrategy)
     = Inr \<lparr>queues = [[], [], []], current_queue = 0\<rparr>
   \<and> push_destinations \<lparr>queues = [[], [], []], current_queue = 0\<rparr>
        [Push (1::nat), Push 2, Pop, Push 3] = [0, 1, 1]
   \<and> cyclic_destinations 3 3 = [0, 1, 2]
   \<and> round_robin_state \<lparr>queues = [[], [], []], current_queue = 0\<rparr>
        [Push (1::nat), Push 2, Pop, Push 3] = \<lparr>queues = [[], [2, 3], []], current_queue = 2\<rparr>
   \<and> round_robin_run \<lparr>queues = [[], []], current_queue = 0\<rparr>
        [Push (1::nat), Push 2, Push 3, Push 4, Pop, Push 5, Pop] = [Inr 1, Inr 3]
   \<and> two_cursors_run \<lparr>sub_queues = [[], []], next_push = 0, last_served = 1\<rparr>
        [Push (1::nat), Push 2, Push 3, Push 4, Pop, Push 5, Pop] = [Inr 1, Inr 2]"
  by (intro conjI; code_simp)

section \<open>The simulator\<close>

subsection \<open>What one arrival and one departure do\<close>

lemma det_gen_new: "DeterministicGenerator v = Inr (det_gen v)"
  by (simp add: DeterministicGenerator_def det_gen_def)

lemma single_server_new: "Simulator_new (det_gen d) (det_gen v) 1 cap = Inr (single_server d v cap)"
  by (simp add: Simulator_new_def single_server_def)

lemma generate_det_gen [simp]: "generate (det_gen v) = (v, det_gen v)"
  by (simp add: generate_def det_gen_def)

lemma find_free_core_from_result:
  "(find_free_core_from cores busy i = -1 \<and> (\<forall>c. i \<le> c \<and> c < cores \<longrightarrow> busy ! nat c))
   \<or> (i \<le> find_free_core_from cores busy i \<and> find_free_core_from cores busy i < cores
       \<and> \<not> busy ! nat (find_free_core_from cores busy i))"
proof (induction cores busy i rule: find_free_core_from.induct)
  case (1 cores busy i)
  show ?case
  proof (cases "i < cores")
    case False
    then show ?thesis by (auto simp: find_free_core_from.simps [of cores busy i])
  next
    case less: True
    show ?thesis
    proof (cases "busy ! nat i")
      case False
      with less show ?thesis by (simp add: find_free_core_from.simps [of cores busy i])
    next
      case True
      with less have eq: "find_free_core_from cores busy i = find_free_core_from cores busy (i + 1)"
        by (simp add: find_free_core_from.simps [of cores busy i])
      from "1.IH" [OF less] True have
        "(find_free_core_from cores busy (i + 1) = -1
            \<and> (\<forall>c. i + 1 \<le> c \<and> c < cores \<longrightarrow> busy ! nat c))
         \<or> (i + 1 \<le> find_free_core_from cores busy (i + 1)
             \<and> find_free_core_from cores busy (i + 1) < cores
             \<and> \<not> busy ! nat (find_free_core_from cores busy (i + 1)))"
        by simp
      then show ?thesis
      proof
        assume a: "find_free_core_from cores busy (i + 1) = -1
            \<and> (\<forall>c. i + 1 \<le> c \<and> c < cores \<longrightarrow> busy ! nat c)"
        have "busy ! nat c" if "i \<le> c \<and> c < cores" for c
          using that a True by (cases "c = i") auto
        with a eq show ?thesis by simp
      next
        assume "i + 1 \<le> find_free_core_from cores busy (i + 1)
             \<and> find_free_core_from cores busy (i + 1) < cores
             \<and> \<not> busy ! nat (find_free_core_from cores busy (i + 1))"
        with eq show ?thesis by simp
      qed
    qed
  qed
qed

lemma find_free_core_result:
  "(find_free_core s = -1 \<and> (\<forall>c. 0 \<le> c \<and> c < num_cores s \<longrightarrow> cores_busy s ! nat c))
   \<or> (0 \<le> find_free_core s \<and> find_free_core s < num_cores s
       \<and> \<not> cores_busy s ! nat (find_free_core s))"
  unfolding find_free_core_def by (rule find_free_core_from_result)

lemma schedule_next_arrival_alt:
  "schedule_next_arrival s =
     s\<lparr>arrival_generator := snd (generate (arrival_generator s)),
       event_queue := event_queue s
          @ [Event_arrival (current_time s + fst (generate (arrival_generator s)))]\<rparr>"
  by (simp add: schedule_next_arrival_def split: prod.splits)

lemma update_busy_statistics_alt:
  "update_busy_statistics s =
     s\<lparr>total_busy_time :=
         (if last_busy_check_time s < current_time s
          then total_busy_time s
               + (current_time s - last_busy_check_time s) * of_counter (count_busy_cores s)
          else total_busy_time s),
       last_busy_check_time :=
         (if last_busy_check_time s < current_time s then current_time s
          else last_busy_check_time s)\<rparr>"
  by (simp add: update_busy_statistics_def)

lemma update_busy_statistics_counters [simp]:
  "jobs_completed (update_busy_statistics s) = jobs_completed s"
  "jobs_lost (update_busy_statistics s) = jobs_lost s"
  "total_arrivals (update_busy_statistics s) = total_arrivals s"
  "wait_times (update_busy_statistics s) = wait_times s"
  "current_time (update_busy_statistics s) = current_time s"
  "job_queue (update_busy_statistics s) = job_queue s"
  by (simp_all add: update_busy_statistics_alt)

text \<open>The three outcomes of an arrival.\<close>

lemma process_arrival_served:
  assumes "find_free_core s \<noteq> -1"
  shows "process_arrival s =
     Inr (schedule_next_arrival
       (s\<lparr>total_arrivals := total_arrivals s + 1,
          service_generator := snd (generate (service_generator s)),
          next_job_id := next_job_id s + 1,
          active_jobs := (active_jobs s)(next_job_id s \<mapsto>
             (Job_new (next_job_id s) (current_time s) (fst (generate (service_generator s))))
               \<lparr>start_time := current_time s\<rparr>),
          cores_busy := (cores_busy s)[nat (find_free_core s) := True],
          cores_finish_time := (cores_finish_time s)[nat (find_free_core s) :=
             current_time s + fst (generate (service_generator s))],
          cores_current_job := (cores_current_job s)[nat (find_free_core s) := next_job_id s],
          event_queue := event_queue s
             @ [Event_departure (current_time s + fst (generate (service_generator s)))
                  (next_job_id s) (find_free_core s)]\<rparr>))"
proof -
  from find_free_core_result [of s] assms
  have range: "0 \<le> find_free_core s" "find_free_core s < num_cores s" by auto
  then show ?thesis
    using assms
    by (simp add: process_arrival_def Let_def add_job_def find_free_core_def occupy_core_def
          active_jobs_at_def schedule_departure_def Job_new_def split: prod.splits)
qed

lemma process_arrival_lost:
  assumes "find_free_core s = -1" and "buffer_full s"
  shows "process_arrival s =
     Inr (schedule_next_arrival
       (s\<lparr>total_arrivals := total_arrivals s + 1,
          service_generator := snd (generate (service_generator s)),
          next_job_id := next_job_id s + 1,
          jobs_lost := jobs_lost s + 1,
          active_jobs := (active_jobs s)(next_job_id s := None)\<rparr>))"
proof -
  have "buffer_full (s\<lparr>total_arrivals := a, service_generator := g, next_job_id := n,
           active_jobs := m\<rparr>) = buffer_full s" for a g n m
    by (simp add: buffer_full_def)
  with assms show ?thesis
    by (simp add: process_arrival_def Let_def add_job_def find_free_core_def
          Job_new_def split: prod.splits)
qed

lemma process_arrival_queued:
  assumes "find_free_core s = -1" and "\<not> buffer_full s"
  shows "process_arrival s =
     Inr (schedule_next_arrival
       (s\<lparr>total_arrivals := total_arrivals s + 1,
          service_generator := snd (generate (service_generator s)),
          next_job_id := next_job_id s + 1,
          active_jobs := (active_jobs s)(next_job_id s \<mapsto>
             Job_new (next_job_id s) (current_time s) (fst (generate (service_generator s)))),
          job_queue := job_queue s
             @ [Job_new (next_job_id s) (current_time s) (fst (generate (service_generator s)))]\<rparr>))"
proof -
  have "buffer_full (s\<lparr>total_arrivals := a, service_generator := g, next_job_id := n,
           active_jobs := m\<rparr>) = buffer_full s" for a g n m
    by (simp add: buffer_full_def)
  with assms show ?thesis
    by (simp add: process_arrival_def Let_def add_job_def find_free_core_def
          FIFOQueue_push_def Job_new_def split: prod.splits)
qed

text \<open>The outcomes of a departure.\<close>

lemma process_departure_unknown:
  assumes "active_jobs s jid = None"
  shows "process_departure jid cid s = Inr s"
  using assms by (simp add: process_departure_def)

lemma process_departure_idle:
  assumes "active_jobs s jid = Some j" and "0 \<le> cid" and "cid < num_cores s"
    and "job_queue s = []"
  shows "process_departure jid cid s =
     Inr (s\<lparr>wait_times := wait_times s @ [wait_time j],
            system_times := system_times s @ [system_time (j\<lparr>finish_time := current_time s\<rparr>)],
            cores_busy := (cores_busy s)[nat cid := False],
            cores_finish_time := (cores_finish_time s)[nat cid := 0],
            cores_current_job := (cores_current_job s)[nat cid := -1],
            jobs_completed := jobs_completed s + 1,
            active_jobs := (active_jobs s)(jid := None)\<rparr>)"
  using assms
  by (simp add: process_departure_def Let_def record_wait_time_def record_system_time_def
        release_core_def wait_time_def)

lemma process_departure_next:
  assumes "active_jobs s jid = Some j" and "0 \<le> cid" and "cid < num_cores s"
    and "job_queue s = next_job # rest" and "id_job next_job \<noteq> jid"
    and "active_jobs s (id_job next_job) = Some stored"
  shows "process_departure jid cid s =
     Inr (s\<lparr>wait_times := wait_times s @ [wait_time j],
            system_times := system_times s @ [system_time (j\<lparr>finish_time := current_time s\<rparr>)],
            jobs_completed := jobs_completed s + 1,
            job_queue := rest,
            active_jobs := (active_jobs s)(jid := None,
               id_job next_job \<mapsto> stored\<lparr>start_time := current_time s\<rparr>),
            cores_busy := (cores_busy s)[nat cid := True],
            cores_finish_time := (cores_finish_time s)[nat cid :=
               current_time s + service_time stored],
            cores_current_job := (cores_current_job s)[nat cid := id_job stored],
            event_queue := event_queue s
               @ [Event_departure (current_time s + service_time stored) (id_job stored) cid]\<rparr>)"
  using assms
  by (simp add: process_departure_def Let_def record_wait_time_def record_system_time_def
        release_core_def occupy_core_def FIFOQueue_pop_def schedule_departure_def wait_time_def)

lemma process_departure_returns:
  assumes "0 \<le> cid" and "cid < num_cores s"
  shows "\<exists>s'. process_departure jid cid s = Inr s'"
  using assms
  by (simp add: process_departure_def Let_def record_wait_time_def record_system_time_def
        release_core_def occupy_core_def FIFOQueue_pop_def schedule_departure_def
        split: option.splits list.splits)

lemma process_arrival_returns: "\<exists>s'. process_arrival s = Inr s'"
  using process_arrival_served [of s] process_arrival_lost [of s] process_arrival_queued [of s]
  by (cases "find_free_core s = -1"; cases "buffer_full s") auto

lemma process_event_at:
  "process_event e s =
     (case type_ev e of
        ARRIVAL \<Rightarrow> process_arrival (at_event e s)
      | DEPARTURE \<Rightarrow> process_departure (job_id e) (core_id e) (at_event e s))"
  by (cases "type_ev e") (simp_all add: process_event_def at_event_def Let_def)

lemma at_event_fields [simp]:
  "current_time (at_event e s) = time e"
  "event_queue (at_event e s) = remove1 e (event_queue s)"
  "jobs_completed (at_event e s) = jobs_completed s"
  "jobs_lost (at_event e s) = jobs_lost s"
  "next_job_id (at_event e s) = next_job_id s"
  "total_arrivals (at_event e s) = total_arrivals s"
  "arrival_generator (at_event e s) = arrival_generator s"
  "service_generator (at_event e s) = service_generator s"
  "num_cores (at_event e s) = num_cores s"
  "buffer_capacity (at_event e s) = buffer_capacity s"
  "job_queue (at_event e s) = job_queue s"
  "cores_busy (at_event e s) = cores_busy s"
  "cores_finish_time (at_event e s) = cores_finish_time s"
  "cores_current_job (at_event e s) = cores_current_job s"
  "active_jobs (at_event e s) = active_jobs s"
  "wait_times (at_event e s) = wait_times s"
  "system_times (at_event e s) = system_times s"
  by (simp_all add: at_event_def update_busy_statistics_alt)

lemma find_free_core_at [simp]: "find_free_core (at_event e s) = find_free_core s"
  by (simp add: find_free_core_def)

lemma buffer_full_at [simp]: "buffer_full (at_event e s) = buffer_full s"
  by (simp add: buffer_full_def)

lemma process_arrival_time:
  assumes "process_arrival s = Inr s'"
  shows "current_time s' = current_time s"
proof (cases "find_free_core s = -1")
  case False
  from process_arrival_served [OF False] assms show ?thesis
    by (simp add: schedule_next_arrival_alt)
next
  case none: True
  show ?thesis
  proof (cases "buffer_full s")
    case True
    from process_arrival_lost [OF none True] assms show ?thesis
      by (simp add: schedule_next_arrival_alt)
  next
    case False
    from process_arrival_queued [OF none False] assms show ?thesis
      by (simp add: schedule_next_arrival_alt)
  qed
qed

lemma process_departure_time:
  "process_departure jid cid s = Inr s' \<Longrightarrow> current_time s' = current_time s"
  by (auto simp: process_departure_def Let_def record_wait_time_def record_system_time_def
        release_core_def occupy_core_def FIFOQueue_pop_def schedule_departure_def
        split: option.splits list.splits if_splits)

lemma process_event_time:
  "process_event e s = Inr s' \<Longrightarrow> current_time s' = time e" for s :: "real Simulator"
  using process_arrival_time [of "at_event e s" s'] process_departure_time [of _ _ "at_event e s" s']
  by (cases "type_ev e") (simp_all add: process_event_at)

subsection \<open>The invariant holds at every event boundary\<close>

text \<open>The shapes of the state after one event, under the invariant.\<close>

lemma process_event_cases [consumes 3, case_names served lost queued idle next_job]:
  assumes inv: "consistent s" and mem: "e \<in> set (event_queue s)"
    and step: "process_event e s = Inr s'"
  obtains
    (served) "type_ev e = ARRIVAL" "find_free_core s \<noteq> -1"
      "s' = schedule_next_arrival
       ((at_event e s)\<lparr>total_arrivals := total_arrivals s + 1,
          service_generator := snd (generate (service_generator s)),
          next_job_id := next_job_id s + 1,
          active_jobs := (active_jobs s)(next_job_id s \<mapsto>
             (Job_new (next_job_id s) (time e) (fst (generate (service_generator s))))
               \<lparr>start_time := time e\<rparr>),
          cores_busy := (cores_busy s)[nat (find_free_core s) := True],
          cores_finish_time := (cores_finish_time s)[nat (find_free_core s) :=
             time e + fst (generate (service_generator s))],
          cores_current_job := (cores_current_job s)[nat (find_free_core s) := next_job_id s],
          event_queue := remove1 e (event_queue s)
             @ [Event_departure (time e + fst (generate (service_generator s)))
                  (next_job_id s) (find_free_core s)]\<rparr>)"
  | (lost) "type_ev e = ARRIVAL" "find_free_core s = -1" "buffer_full s"
      "s' = schedule_next_arrival
       ((at_event e s)\<lparr>total_arrivals := total_arrivals s + 1,
          service_generator := snd (generate (service_generator s)),
          next_job_id := next_job_id s + 1,
          jobs_lost := jobs_lost s + 1,
          active_jobs := (active_jobs s)(next_job_id s := None)\<rparr>)"
  | (queued) "type_ev e = ARRIVAL" "find_free_core s = -1" "\<not> buffer_full s"
      "s' = schedule_next_arrival
       ((at_event e s)\<lparr>total_arrivals := total_arrivals s + 1,
          service_generator := snd (generate (service_generator s)),
          next_job_id := next_job_id s + 1,
          active_jobs := (active_jobs s)(next_job_id s \<mapsto>
             Job_new (next_job_id s) (time e) (fst (generate (service_generator s)))),
          job_queue := job_queue s
             @ [Job_new (next_job_id s) (time e) (fst (generate (service_generator s)))]\<rparr>)"
  | (idle) j where "type_ev e = DEPARTURE" "active_jobs s (job_id e) = Some j"
      "job_queue s = []"
      "s' = (at_event e s)\<lparr>wait_times := wait_times s @ [wait_time j],
            system_times := system_times s @ [system_time (j\<lparr>finish_time := time e\<rparr>)],
            cores_busy := (cores_busy s)[nat (core_id e) := False],
            cores_finish_time := (cores_finish_time s)[nat (core_id e) := 0],
            cores_current_job := (cores_current_job s)[nat (core_id e) := -1],
            jobs_completed := jobs_completed s + 1,
            active_jobs := (active_jobs s)(job_id e := None)\<rparr>"
  | (next_job) j next_job rest stored where "type_ev e = DEPARTURE"
      "active_jobs s (job_id e) = Some j"
      "job_queue s = next_job # rest" "id_job next_job \<noteq> job_id e"
      "active_jobs s (id_job next_job) = Some stored" "id_job stored = id_job next_job"
      "s' = (at_event e s)\<lparr>wait_times := wait_times s @ [wait_time j],
            system_times := system_times s @ [system_time (j\<lparr>finish_time := time e\<rparr>)],
            jobs_completed := jobs_completed s + 1,
            job_queue := rest,
            active_jobs := (active_jobs s)(job_id e := None,
               id_job next_job \<mapsto> stored\<lparr>start_time := time e\<rparr>),
            cores_busy := (cores_busy s)[nat (core_id e) := True],
            cores_finish_time := (cores_finish_time s)[nat (core_id e) :=
               time e + service_time stored],
            cores_current_job := (cores_current_job s)[nat (core_id e) := id_job next_job],
            event_queue := remove1 e (event_queue s)
               @ [Event_departure (time e + service_time stored) (id_job next_job) (core_id e)]\<rparr>"
proof (cases "type_ev e")
  case ARRIVAL
  with step have pa: "process_arrival (at_event e s) = Inr s'"
    by (simp add: process_event_at)
  show thesis
  proof (cases "find_free_core s = -1")
    case False
    with pa process_arrival_served [of "at_event e s"] ARRIVAL show thesis
      by (intro served) simp_all
  next
    case none: True
    show thesis
    proof (cases "buffer_full s")
      case True
      with pa none process_arrival_lost [of "at_event e s"] ARRIVAL show thesis
        by (intro lost) simp_all
    next
      case False
      with pa none process_arrival_queued [of "at_event e s"] ARRIVAL show thesis
        by (intro queued) simp_all
    qed
  qed
next
  case DEPARTURE
  with step have pd: "process_departure (job_id e) (core_id e) (at_event e s) = Inr s'"
    by (simp add: process_event_at)
  from inv have dep: "departures_ok s" and pl: "placed s" and conf: "configured s"
    by (simp_all add: consistent_def)
  from dep mem DEPARTURE have core: "0 \<le> core_id e" "core_id e < num_cores s"
    and busy: "cores_busy s ! nat (core_id e)"
    and job: "cores_current_job s ! nat (core_id e) = job_id e"
    by (auto simp: departures_ok_def)
  from core conf have less: "nat (core_id e) < length (cores_busy s)"
    by (simp add: configured_def)
  from pl have dom: "(k \<in> dom (active_jobs s)) =
            ((\<exists>c < length (cores_busy s). cores_busy s ! c \<and> cores_current_job s ! c = k)
             \<or> k \<in> id_job ` set (job_queue s))" for k
    by (simp add: placed_def)
  from less busy job have "job_id e \<in> dom (active_jobs s)"
    unfolding dom by blast
  then obtain j where j: "active_jobs s (job_id e) = Some j" by auto
  show thesis
  proof (cases "job_queue s")
    case Nil
    with pd j core process_departure_idle [of "at_event e s" "job_id e" j "core_id e"] DEPARTURE
    show thesis by (intro idle [of j]) simp_all
  next
    case (Cons next_job rest)
    then have "id_job next_job \<in> dom (active_jobs s)"
      unfolding dom by simp
    then obtain stored where stored: "active_jobs s (id_job next_job) = Some stored" by auto
    with pl have same: "id_job stored = id_job next_job" by (simp add: placed_def)
    from pl less busy job Cons have differ: "id_job next_job \<noteq> job_id e"
      by (auto simp: placed_def)
    from pd j core Cons stored same differ DEPARTURE
      process_departure_next [of "at_event e s" "job_id e" j "core_id e" next_job rest stored]
    show thesis by (intro next_job [of j next_job rest stored]) simp_all
  qed
qed

lemma distinct_map_remove1: "distinct (map f xs) \<Longrightarrow> distinct (map f (remove1 x xs))"
proof -
  assume "distinct (map f xs)"
  then have "distinct xs" and "inj_on f (set xs)" by (simp_all add: distinct_map)
  moreover have "set (remove1 x xs) \<subseteq> set xs" by (rule set_remove1_subset)
  ultimately show ?thesis
    by (auto simp: distinct_map intro: inj_on_subset)
qed

lemma remove1_other_key:
  assumes "distinct (map f xs)" and "x \<in> set xs" and "y \<in> set (remove1 x xs)"
  shows "f y \<noteq> f x"
proof -
  from assms(1) have d: "distinct xs" and i: "inj_on f (set xs)" by (simp_all add: distinct_map)
  from d assms(3) have "y \<in> set xs" and "y \<noteq> x" by (simp_all add: set_remove1_eq)
  with i assms(2) show ?thesis by (auto dest: inj_onD)
qed

lemma departures_remove1:
  assumes "distinct (map core_id (filter (\<lambda>e. type_ev e = DEPARTURE) q))"
  shows "distinct (map core_id (filter (\<lambda>e. type_ev e = DEPARTURE) (remove1 e q)))"
  using assms by (simp add: filter_remove1 distinct_map_remove1)

lemma departures_other_core:
  assumes "distinct (map core_id (filter (\<lambda>e. type_ev e = DEPARTURE) q))"
    and "e \<in> set q" and "type_ev e = DEPARTURE"
    and "e' \<in> set (remove1 e q)" and "type_ev e' = DEPARTURE"
  shows "core_id e' \<noteq> core_id e"
proof -
  from assms(2,3) have "e \<in> set (filter (\<lambda>e. type_ev e = DEPARTURE) q)" by simp
  moreover from assms(4,5)
  have "e' \<in> set (remove1 e (filter (\<lambda>e. type_ev e = DEPARTURE) q))"
    by (simp add: filter_remove1 [symmetric])
  ultimately show ?thesis
    using remove1_other_key [OF assms(1)] by blast
qed

lemma count_busy_cores_filter:
  "count_busy_cores s = int (length (filter (\<lambda>b. b) (cores_busy s)))"
proof -
  have "fold (\<lambda>busy count. if busy then count + 1 else count) bs (a::int)
        = a + int (length (filter (\<lambda>b. b) bs))" for bs a
    by (induction bs arbitrary: a) simp_all
  then show ?thesis by (simp add: count_busy_cores_def)
qed

lemma configured_new: "Simulator_new ag sg cores cap = Inr sim \<Longrightarrow> configured sim"
  by (auto simp: Simulator_new_def configured_def split: if_splits)

lemma consistent_start:
  assumes "configured sim"
  shows "consistent (schedule_next_arrival (initialize sim))"
  using assms
  by (auto simp: consistent_def configured_def ids_fresh_def departures_ok_def placed_def
        counters_ok_def jobs_in_system_def schedule_next_arrival_alt initialize_def
        Event_arrival_def)

lemma ex_less_cong: "(\<And>c. c < n \<Longrightarrow> P c = Q c) \<Longrightarrow> (\<exists>c<n. P c) = (\<exists>c<(n::nat). Q c)"
  by auto

lemma consistent_step:
  assumes inv: "consistent s" and mem: "e \<in> set (event_queue s)"
    and step: "process_event e s = Inr s'"
  shows "consistent s'"
proof -
  from inv have conf: "configured s" and fresh: "ids_fresh s" and dep: "departures_ok s"
    and pl: "placed s" and cnt: "counters_ok s"
    by (simp_all add: consistent_def)
  from conf have len: "length (cores_busy s) = nat (num_cores s)"
    "length (cores_current_job s) = nat (num_cores s)"
    "length (cores_finish_time s) = nat (num_cores s)" "0 < num_cores s"
    by (simp_all add: configured_def)
  from fresh have fin: "finite (dom (active_jobs s))"
    and new: "next_job_id s \<notin> dom (active_jobs s)"
    and below: "\<And>k j. active_jobs s k = Some j \<Longrightarrow> k < next_job_id s"
    by (auto simp: ids_fresh_def)
  from dep have dep_core: "\<And>d. d \<in> set (event_queue s) \<Longrightarrow> type_ev d = DEPARTURE \<Longrightarrow>
          0 \<le> core_id d \<and> core_id d < num_cores s \<and> cores_busy s ! nat (core_id d)
          \<and> cores_current_job s ! nat (core_id d) = job_id d"
    and dep_dist: "distinct (map core_id (filter (\<lambda>e. type_ev e = DEPARTURE) (event_queue s)))"
    by (auto simp: departures_ok_def)
  from pl have key: "\<And>k j. active_jobs s k = Some j \<Longrightarrow> id_job j = k"
    and qdist: "distinct (map id_job (job_queue s))"
    and apart: "\<And>c. c < length (cores_busy s) \<Longrightarrow> cores_busy s ! c \<Longrightarrow>
            cores_current_job s ! c \<notin> id_job ` set (job_queue s)"
    and inj: "\<And>c c'. c < length (cores_busy s) \<Longrightarrow> c' < length (cores_busy s) \<Longrightarrow>
            cores_busy s ! c \<Longrightarrow> cores_busy s ! c' \<Longrightarrow>
            cores_current_job s ! c = cores_current_job s ! c' \<Longrightarrow> c = c'"
    and dom: "\<And>k. (k \<in> dom (active_jobs s)) =
            ((\<exists>c < length (cores_busy s). cores_busy s ! c \<and> cores_current_job s ! c = k)
             \<or> k \<in> id_job ` set (job_queue s))"
    by (simp_all add: placed_def)
  have queued_known: "id_job x \<in> dom (active_jobs s)" if "x \<in> set (job_queue s)" for x
    using that dom [of "id_job x"] by blast
  have queued_old: "next_job_id s \<notin> id_job ` set (job_queue s)"
  proof
    assume "next_job_id s \<in> id_job ` set (job_queue s)"
    then obtain x where "x \<in> set (job_queue s)" "next_job_id s = id_job x" by auto
    with queued_known [of x] new show False by simp
  qed
  have served_known: "cores_current_job s ! c \<in> dom (active_jobs s)"
    if "c < length (cores_busy s)" "cores_busy s ! c" for c
    using that dom [of "cores_current_job s ! c"] by blast
  have served_old: "cores_current_job s ! c \<noteq> next_job_id s"
    if "c < length (cores_busy s)" "cores_busy s ! c" for c
    using served_known [OF that] new by auto
  have rest_dist: "distinct (map core_id (filter (\<lambda>e. type_ev e = DEPARTURE)
                      (remove1 e (event_queue s))))"
    using dep_dist by (rule departures_remove1)
  have rest_core: "0 \<le> core_id d \<and> core_id d < num_cores s \<and> cores_busy s ! nat (core_id d)
          \<and> cores_current_job s ! nat (core_id d) = job_id d"
    if "d \<in> set (remove1 e (event_queue s))" "type_ev d = DEPARTURE" for d
  proof -
    from that(1) have "d \<in> set (event_queue s)"
      using set_remove1_subset [of e "event_queue s"] by blast
    then show ?thesis using that(2) by (rule dep_core)
  qed
  from inv mem step show ?thesis
  proof (cases rule: process_event_cases)
    case served
    let ?f = "nat (find_free_core s)"
    let ?k = "next_job_id s"
    let ?d = "Event_departure (time e + fst (generate (service_generator s))) ?k
               (find_free_core s)"
    from find_free_core_result [of s] served(2) len
    have f: "0 \<le> find_free_core s" "find_free_core s < num_cores s" "\<not> cores_busy s ! ?f"
      "?f < length (cores_busy s)" "?f < length (cores_current_job s)"
      by auto
    have fields: "num_cores s' = num_cores s"
      "cores_busy s' = (cores_busy s)[?f := True]"
      "cores_current_job s' = (cores_current_job s)[?f := ?k]"
      "length (cores_finish_time s') = length (cores_finish_time s)"
      "next_job_id s' = ?k + 1"
      "job_queue s' = job_queue s"
      "jobs_completed s' = jobs_completed s" "jobs_lost s' = jobs_lost s"
      "total_arrivals s' = total_arrivals s + 1"
      by (simp_all add: served(3) schedule_next_arrival_alt)
    have jobs: "active_jobs s' = (active_jobs s)(?k \<mapsto>
             (Job_new ?k (time e) (fst (generate (service_generator s))))
               \<lparr>start_time := time e\<rparr>)"
      by (simp add: served(3) schedule_next_arrival_alt)
    have events: "filter (\<lambda>e. type_ev e = DEPARTURE) (event_queue s')
        = filter (\<lambda>e. type_ev e = DEPARTURE) (remove1 e (event_queue s)) @ [?d]"
      by (simp add: served(3) schedule_next_arrival_alt Event_arrival_def Event_departure_def)
    have new_event: "type_ev ?d = DEPARTURE" "core_id ?d = find_free_core s" "job_id ?d = ?k"
      by (simp_all add: Event_departure_def)
    have c1: "configured s'"
      using len by (simp add: configured_def fields)
    have c2: "ids_fresh s'"
      using fin below by (fastforce simp: ids_fresh_def fields jobs)
    have others: "nat (core_id d) \<noteq> ?f"
      if "d \<in> set (remove1 e (event_queue s))" "type_ev d = DEPARTURE" for d
      using rest_core [OF that] f by auto
    have "0 \<le> core_id d \<and> core_id d < num_cores s' \<and> cores_busy s' ! nat (core_id d)
          \<and> cores_current_job s' ! nat (core_id d) = job_id d"
      if "d \<in> set (event_queue s')" "type_ev d = DEPARTURE" for d
    proof -
      from that have "d \<in> set (filter (\<lambda>e. type_ev e = DEPARTURE) (event_queue s'))" by simp
      then have "d \<in> set (remove1 e (event_queue s)) \<or> d = ?d"
        unfolding events by auto
      then show ?thesis
      proof
        assume old: "d \<in> set (remove1 e (event_queue s))"
        from rest_core [OF old that(2)] others [OF old that(2)] show ?thesis
          by (simp add: fields)
      next
        assume "d = ?d"
        with f new_event show ?thesis by (simp add: fields)
      qed
    qed
    moreover have "distinct (map core_id (filter (\<lambda>e. type_ev e = DEPARTURE) (event_queue s')))"
    proof -
      have "find_free_core s \<notin> core_id ` set (filter (\<lambda>e. type_ev e = DEPARTURE)
                      (remove1 e (event_queue s)))"
      proof
        assume "find_free_core s \<in> core_id ` set (filter (\<lambda>e. type_ev e = DEPARTURE)
                      (remove1 e (event_queue s)))"
        then obtain d where "d \<in> set (remove1 e (event_queue s))" "type_ev d = DEPARTURE"
          "core_id d = find_free_core s" by auto
        with others [of d] show False by simp
      qed
      with rest_dist show ?thesis unfolding events by (simp add: new_event)
    qed
    ultimately have c3: "departures_ok s'"
      unfolding departures_ok_def by blast
    have c4: "placed s'"
      unfolding placed_def fields jobs
    proof (intro conjI allI impI)
      fix k j
      assume "((active_jobs s)(?k \<mapsto> (Job_new ?k (time e) (fst (generate (service_generator s))))
               \<lparr>start_time := time e\<rparr>)) k = Some j"
      then show "id_job j = k"
        using key by (auto simp: Job_new_def split: if_splits)
    next
      show "distinct (map id_job (job_queue s))" by (rule qdist)
    next
      fix c
      assume "c < length ((cores_busy s)[?f := True])" "(cores_busy s)[?f := True] ! c"
      then show "(cores_current_job s)[?f := ?k] ! c \<notin> id_job ` set (job_queue s)"
        using apart [of c] queued_old f by (cases "c = ?f") auto
    next
      fix c c'
      assume "c < length ((cores_busy s)[?f := True])" "c' < length ((cores_busy s)[?f := True])"
        "(cores_busy s)[?f := True] ! c \<and> (cores_busy s)[?f := True] ! c'
         \<and> (cores_current_job s)[?f := ?k] ! c = (cores_current_job s)[?f := ?k] ! c'"
      then show "c = c'"
        using inj [of c c'] served_old [of c] served_old [of c'] f len
        by (cases "c = ?f"; cases "c' = ?f") auto
    next
      fix k
      show "(k \<in> dom ((active_jobs s)(?k \<mapsto> (Job_new ?k (time e)
                 (fst (generate (service_generator s))))\<lparr>start_time := time e\<rparr>))) =
            ((\<exists>c < length ((cores_busy s)[?f := True]). (cores_busy s)[?f := True] ! c
                 \<and> (cores_current_job s)[?f := ?k] ! c = k)
             \<or> k \<in> id_job ` set (job_queue s))"
      proof (cases "k = ?k")
        case True
        have "\<exists>c < length ((cores_busy s)[?f := True]). (cores_busy s)[?f := True] ! c
                 \<and> (cores_current_job s)[?f := ?k] ! c = ?k"
          using f by (intro exI [of _ ?f]) simp
        with True show ?thesis by simp
      next
        case False
        have "(\<exists>c < length (cores_busy s). (cores_busy s)[?f := True] ! c
                 \<and> (cores_current_job s)[?f := ?k] ! c = k)
              = (\<exists>c < length (cores_busy s). cores_busy s ! c \<and> cores_current_job s ! c = k)"
        proof (rule ex_less_cong)
          fix c assume "c < length (cores_busy s)"
          then show "((cores_busy s)[?f := True] ! c \<and> (cores_current_job s)[?f := ?k] ! c = k)
                     = (cores_busy s ! c \<and> cores_current_job s ! c = k)"
            using False f len by (cases "c = ?f") auto
        qed
        with False dom [of k] show ?thesis by simp
      qed
    qed
    have c5: "counters_ok s'"
      using cnt fin new by (simp add: counters_ok_def jobs_in_system_def fields jobs)
    from c1 c2 c3 c4 c5 show ?thesis by (simp add: consistent_def)
  next
    case lost
    let ?k = "next_job_id s"
    from new have same: "(active_jobs s)(?k := None) = active_jobs s"
      by (auto simp: domIff)
    have fields: "num_cores s' = num_cores s"
      "cores_busy s' = cores_busy s"
      "cores_current_job s' = cores_current_job s"
      "length (cores_finish_time s') = length (cores_finish_time s)"
      "next_job_id s' = ?k + 1"
      "job_queue s' = job_queue s"
      "active_jobs s' = active_jobs s"
      "jobs_completed s' = jobs_completed s" "jobs_lost s' = jobs_lost s + 1"
      "total_arrivals s' = total_arrivals s + 1"
      by (simp_all add: lost(4) schedule_next_arrival_alt same)
    have events: "filter (\<lambda>e. type_ev e = DEPARTURE) (event_queue s')
        = filter (\<lambda>e. type_ev e = DEPARTURE) (remove1 e (event_queue s))"
      by (simp add: lost(4) schedule_next_arrival_alt Event_arrival_def)
    have c1: "configured s'"
      using len by (simp add: configured_def fields)
    have c2: "ids_fresh s'"
      using fin below by (fastforce simp: ids_fresh_def fields)
    have "0 \<le> core_id d \<and> core_id d < num_cores s' \<and> cores_busy s' ! nat (core_id d)
          \<and> cores_current_job s' ! nat (core_id d) = job_id d"
      if "d \<in> set (event_queue s')" "type_ev d = DEPARTURE" for d
    proof -
      from that have "d \<in> set (filter (\<lambda>e. type_ev e = DEPARTURE) (event_queue s'))" by simp
      then have "d \<in> set (remove1 e (event_queue s))"
        unfolding events by simp
      from rest_core [OF this that(2)] show ?thesis by (simp add: fields)
    qed
    with rest_dist have c3: "departures_ok s'"
      unfolding departures_ok_def events by blast
    from pl have c4: "placed s'"
      by (simp add: placed_def fields)
    have c5: "counters_ok s'"
      using cnt by (simp add: counters_ok_def jobs_in_system_def fields)
    from c1 c2 c3 c4 c5 show ?thesis by (simp add: consistent_def)
  next
    case queued
    let ?k = "next_job_id s"
    let ?j = "Job_new ?k (time e) (fst (generate (service_generator s)))"
    have fields: "num_cores s' = num_cores s"
      "cores_busy s' = cores_busy s"
      "cores_current_job s' = cores_current_job s"
      "length (cores_finish_time s') = length (cores_finish_time s)"
      "next_job_id s' = ?k + 1"
      "job_queue s' = job_queue s @ [?j]"
      "jobs_completed s' = jobs_completed s" "jobs_lost s' = jobs_lost s"
      "total_arrivals s' = total_arrivals s + 1"
      by (simp_all add: queued(4) schedule_next_arrival_alt)
    have jobs: "active_jobs s' = (active_jobs s)(?k \<mapsto> ?j)"
      by (simp add: queued(4) schedule_next_arrival_alt)
    have idj: "id_job ?j = ?k" by (simp add: Job_new_def)
    have events: "filter (\<lambda>e. type_ev e = DEPARTURE) (event_queue s')
        = filter (\<lambda>e. type_ev e = DEPARTURE) (remove1 e (event_queue s))"
      by (simp add: queued(4) schedule_next_arrival_alt Event_arrival_def)
    have c1: "configured s'"
      using len by (simp add: configured_def fields)
    have c2: "ids_fresh s'"
      using fin below by (fastforce simp: ids_fresh_def fields jobs)
    have "0 \<le> core_id d \<and> core_id d < num_cores s' \<and> cores_busy s' ! nat (core_id d)
          \<and> cores_current_job s' ! nat (core_id d) = job_id d"
      if "d \<in> set (event_queue s')" "type_ev d = DEPARTURE" for d
    proof -
      from that have "d \<in> set (filter (\<lambda>e. type_ev e = DEPARTURE) (event_queue s'))" by simp
      then have "d \<in> set (remove1 e (event_queue s))"
        unfolding events by simp
      from rest_core [OF this that(2)] show ?thesis by (simp add: fields)
    qed
    with rest_dist have c3: "departures_ok s'"
      unfolding departures_ok_def events by blast
    have c4: "placed s'"
      unfolding placed_def fields jobs
    proof (intro conjI allI impI)
      fix k j
      assume "((active_jobs s)(?k \<mapsto> ?j)) k = Some j"
      then show "id_job j = k"
        using key idj by (auto split: if_splits)
    next
      show "distinct (map id_job (job_queue s @ [?j]))"
        using qdist queued_old by (simp add: idj)
    next
      fix c
      assume "c < length (cores_busy s)" "cores_busy s ! c"
      then show "cores_current_job s ! c \<notin> id_job ` set (job_queue s @ [?j])"
        using apart [of c] served_old [of c] by (simp add: idj)
    next
      fix c c'
      assume "c < length (cores_busy s)" "c' < length (cores_busy s)"
        "cores_busy s ! c \<and> cores_busy s ! c'
         \<and> cores_current_job s ! c = cores_current_job s ! c'"
      then show "c = c'" using inj [of c c'] by simp
    next
      fix k
      show "(k \<in> dom ((active_jobs s)(?k \<mapsto> ?j))) =
            ((\<exists>c < length (cores_busy s). cores_busy s ! c \<and> cores_current_job s ! c = k)
             \<or> k \<in> id_job ` set (job_queue s @ [?j]))"
        using dom [of k] by (auto simp: idj)
    qed
    have c5: "counters_ok s'"
      using cnt fin new by (simp add: counters_ok_def jobs_in_system_def fields jobs)
    from c1 c2 c3 c4 c5 show ?thesis by (simp add: consistent_def)
  next
    case (idle j)
    let ?c = "nat (core_id e)"
    from dep_core [OF mem idle(1)] len
    have core: "0 \<le> core_id e" "core_id e < num_cores s" "cores_busy s ! ?c"
      "cores_current_job s ! ?c = job_id e" "?c < length (cores_busy s)"
      "?c < length (cores_current_job s)"
      by auto
    have fields: "num_cores s' = num_cores s"
      "cores_busy s' = (cores_busy s)[?c := False]"
      "cores_current_job s' = (cores_current_job s)[?c := -1]"
      "length (cores_finish_time s') = length (cores_finish_time s)"
      "next_job_id s' = next_job_id s"
      "job_queue s' = []"
      "active_jobs s' = (active_jobs s)(job_id e := None)"
      "event_queue s' = remove1 e (event_queue s)"
      "jobs_completed s' = jobs_completed s + 1" "jobs_lost s' = jobs_lost s"
      "total_arrivals s' = total_arrivals s"
      by (simp_all add: idle(4) idle(3))
    have c1: "configured s'"
      using len by (simp add: configured_def fields)
    have c2: "ids_fresh s'"
      using fin below by (fastforce simp: ids_fresh_def fields split: if_splits)
    have others: "nat (core_id d) \<noteq> ?c"
      if "d \<in> set (remove1 e (event_queue s))" "type_ev d = DEPARTURE" for d
      using departures_other_core [OF dep_dist mem idle(1) that] rest_core [OF that] core
      by auto
    have "0 \<le> core_id d \<and> core_id d < num_cores s' \<and> cores_busy s' ! nat (core_id d)
          \<and> cores_current_job s' ! nat (core_id d) = job_id d"
      if "d \<in> set (event_queue s')" "type_ev d = DEPARTURE" for d
    proof -
      from that have old: "d \<in> set (remove1 e (event_queue s))" by (simp add: fields)
      from rest_core [OF old that(2)] others [OF old that(2)] show ?thesis
        by (simp add: fields)
    qed
    with rest_dist have c3: "departures_ok s'"
      unfolding departures_ok_def fields by blast
    have c4: "placed s'"
      unfolding placed_def fields
    proof (intro conjI allI impI)
      fix k j'
      assume "((active_jobs s)(job_id e := None)) k = Some j'"
      then show "id_job j' = k"
        using key by (auto split: if_splits)
    next
      show "distinct (map id_job [])" by simp
    next
      fix c
      show "(cores_current_job s)[?c := -1] ! c \<notin> id_job ` set []" by simp
    next
      fix c c'
      assume "c < length ((cores_busy s)[?c := False])" "c' < length ((cores_busy s)[?c := False])"
        "(cores_busy s)[?c := False] ! c \<and> (cores_busy s)[?c := False] ! c'
         \<and> (cores_current_job s)[?c := -1] ! c = (cores_current_job s)[?c := -1] ! c'"
      then show "c = c'"
        using inj [of c c'] by (cases "c = ?c"; cases "c' = ?c") auto
    next
      fix k
      have "(\<exists>c < length (cores_busy s). (cores_busy s)[?c := False] ! c
                 \<and> (cores_current_job s)[?c := -1] ! c = k)
            = (k \<noteq> job_id e
               \<and> (\<exists>c < length (cores_busy s). cores_busy s ! c \<and> cores_current_job s ! c = k))"
      proof
        assume "\<exists>c < length (cores_busy s). (cores_busy s)[?c := False] ! c
                 \<and> (cores_current_job s)[?c := -1] ! c = k"
        then obtain c where c: "c < length (cores_busy s)" "(cores_busy s)[?c := False] ! c"
          "(cores_current_job s)[?c := -1] ! c = k" by blast
        then have ne: "c \<noteq> ?c" by auto
        with c have old: "cores_busy s ! c" "cores_current_job s ! c = k" by simp_all
        with inj [of c ?c] c(1) core ne have "k \<noteq> job_id e" by auto
        with old c(1) show "k \<noteq> job_id e
               \<and> (\<exists>c < length (cores_busy s). cores_busy s ! c \<and> cores_current_job s ! c = k)"
          by blast
      next
        assume "k \<noteq> job_id e
               \<and> (\<exists>c < length (cores_busy s). cores_busy s ! c \<and> cores_current_job s ! c = k)"
        then obtain c where c: "k \<noteq> job_id e" "c < length (cores_busy s)" "cores_busy s ! c"
          "cores_current_job s ! c = k" by blast
        with core have "c \<noteq> ?c" by auto
        with c show "\<exists>c < length (cores_busy s). (cores_busy s)[?c := False] ! c
                 \<and> (cores_current_job s)[?c := -1] ! c = k"
          by (intro exI [of _ c]) simp
      qed
      with dom [of k] idle(3)
      show "(k \<in> dom ((active_jobs s)(job_id e := None))) =
            ((\<exists>c < length ((cores_busy s)[?c := False]). (cores_busy s)[?c := False] ! c
                 \<and> (cores_current_job s)[?c := -1] ! c = k)
             \<or> k \<in> id_job ` set [])"
        by auto
    qed
    from idle(2) have "job_id e \<in> dom (active_jobs s)" by auto
    from card.remove [OF fin this] cnt have c5: "counters_ok s'"
      by (simp add: counters_ok_def jobs_in_system_def fields)
    from c1 c2 c3 c4 c5 show ?thesis by (simp add: consistent_def)
  next
    case (next_job j nj rest stored)
    let ?c = "nat (core_id e)"
    let ?n = "id_job nj"
    let ?d = "Event_departure (time e + service_time stored) ?n (core_id e)"
    from dep_core [OF mem next_job(1)] len
    have core: "0 \<le> core_id e" "core_id e < num_cores s" "cores_busy s ! ?c"
      "cores_current_job s ! ?c = job_id e" "?c < length (cores_busy s)"
      "?c < length (cores_current_job s)"
      by auto
    have fields: "num_cores s' = num_cores s"
      "cores_busy s' = (cores_busy s)[?c := True]"
      "cores_current_job s' = (cores_current_job s)[?c := ?n]"
      "length (cores_finish_time s') = length (cores_finish_time s)"
      "next_job_id s' = next_job_id s"
      "job_queue s' = rest"
      "active_jobs s' = (active_jobs s)(job_id e := None,
               ?n \<mapsto> stored\<lparr>start_time := time e\<rparr>)"
      "event_queue s' = remove1 e (event_queue s) @ [?d]"
      "jobs_completed s' = jobs_completed s + 1" "jobs_lost s' = jobs_lost s"
      "total_arrivals s' = total_arrivals s"
      by (simp_all add: next_job(7))
    have new_event: "type_ev ?d = DEPARTURE" "core_id ?d = core_id e" "job_id ?d = ?n"
      by (simp_all add: Event_departure_def)
    from qdist next_job(3) have rest_ids: "?n \<notin> id_job ` set rest" "distinct (map id_job rest)"
      by simp_all
    have c1: "configured s'"
      using len by (simp add: configured_def fields)
    have c2: "ids_fresh s'"
      using fin below next_job(5) by (fastforce simp: ids_fresh_def fields split: if_splits)
    have others: "nat (core_id d) \<noteq> ?c"
      if "d \<in> set (remove1 e (event_queue s))" "type_ev d = DEPARTURE" for d
      using departures_other_core [OF dep_dist mem next_job(1) that] rest_core [OF that] core
      by auto
    have "0 \<le> core_id d \<and> core_id d < num_cores s' \<and> cores_busy s' ! nat (core_id d)
          \<and> cores_current_job s' ! nat (core_id d) = job_id d"
      if "d \<in> set (event_queue s')" "type_ev d = DEPARTURE" for d
    proof -
      from that(1) have "d \<in> set (remove1 e (event_queue s)) \<or> d = ?d"
        by (auto simp: fields)
      then show ?thesis
      proof
        assume old: "d \<in> set (remove1 e (event_queue s))"
        from rest_core [OF old that(2)] others [OF old that(2)] show ?thesis
          by (simp add: fields)
      next
        assume "d = ?d"
        with core new_event show ?thesis by (simp add: fields)
      qed
    qed
    moreover have "distinct (map core_id (filter (\<lambda>e. type_ev e = DEPARTURE) (event_queue s')))"
    proof -
      have "core_id e \<notin> core_id ` set (filter (\<lambda>e. type_ev e = DEPARTURE)
                      (remove1 e (event_queue s)))"
      proof
        assume "core_id e \<in> core_id ` set (filter (\<lambda>e. type_ev e = DEPARTURE)
                      (remove1 e (event_queue s)))"
        then obtain d where "d \<in> set (remove1 e (event_queue s))" "type_ev d = DEPARTURE"
          "core_id d = core_id e" by auto
        with others [of d] show False by simp
      qed
      with rest_dist show ?thesis by (simp add: fields new_event)
    qed
    ultimately have c3: "departures_ok s'"
      unfolding departures_ok_def by blast
    have queue_ids: "id_job ` set (job_queue s) = insert ?n (id_job ` set rest)"
      by (simp add: next_job(3))
    have c4: "placed s'"
      unfolding placed_def fields
    proof (intro conjI allI impI)
      fix k j'
      assume "((active_jobs s)(job_id e := None, ?n \<mapsto> stored\<lparr>start_time := time e\<rparr>)) k
              = Some j'"
      then show "id_job j' = k"
        using key next_job(6) by (auto split: if_splits)
    next
      show "distinct (map id_job rest)" by (rule rest_ids)
    next
      fix c
      assume "c < length ((cores_busy s)[?c := True])" "(cores_busy s)[?c := True] ! c"
      then show "(cores_current_job s)[?c := ?n] ! c \<notin> id_job ` set rest"
        using apart [of c] rest_ids core by (cases "c = ?c") (auto simp: queue_ids)
    next
      fix c c'
      assume "c < length ((cores_busy s)[?c := True])" "c' < length ((cores_busy s)[?c := True])"
        "(cores_busy s)[?c := True] ! c \<and> (cores_busy s)[?c := True] ! c'
         \<and> (cores_current_job s)[?c := ?n] ! c = (cores_current_job s)[?c := ?n] ! c'"
      then show "c = c'"
        using inj [of c c'] apart [of c] apart [of c'] core
        by (cases "c = ?c"; cases "c' = ?c") (auto simp: queue_ids)
    next
      fix k
      have "(\<exists>c < length (cores_busy s). (cores_busy s)[?c := True] ! c
                 \<and> (cores_current_job s)[?c := ?n] ! c = k)
            = (k = ?n \<or> (k \<noteq> job_id e
               \<and> (\<exists>c < length (cores_busy s). cores_busy s ! c \<and> cores_current_job s ! c = k)))"
      proof
        assume "\<exists>c < length (cores_busy s). (cores_busy s)[?c := True] ! c
                 \<and> (cores_current_job s)[?c := ?n] ! c = k"
        then obtain c where c: "c < length (cores_busy s)" "(cores_busy s)[?c := True] ! c"
          "(cores_current_job s)[?c := ?n] ! c = k" by blast
        show "k = ?n \<or> (k \<noteq> job_id e
               \<and> (\<exists>c < length (cores_busy s). cores_busy s ! c \<and> cores_current_job s ! c = k))"
        proof (cases "c = ?c")
          case True
          with c core show ?thesis by simp
        next
          case False
          with c have old: "cores_busy s ! c" "cores_current_job s ! c = k" by simp_all
          with inj [of c ?c] c(1) core False have "k \<noteq> job_id e" by auto
          with old c(1) show ?thesis by blast
        qed
      next
        assume "k = ?n \<or> (k \<noteq> job_id e
               \<and> (\<exists>c < length (cores_busy s). cores_busy s ! c \<and> cores_current_job s ! c = k))"
        then show "\<exists>c < length (cores_busy s). (cores_busy s)[?c := True] ! c
                 \<and> (cores_current_job s)[?c := ?n] ! c = k"
        proof
          assume "k = ?n"
          with core show ?thesis by (intro exI [of _ ?c]) simp
        next
          assume "k \<noteq> job_id e
               \<and> (\<exists>c < length (cores_busy s). cores_busy s ! c \<and> cores_current_job s ! c = k)"
          then obtain c where c: "k \<noteq> job_id e" "c < length (cores_busy s)" "cores_busy s ! c"
            "cores_current_job s ! c = k" by blast
          with core have "c \<noteq> ?c" by auto
          with c show ?thesis by (intro exI [of _ c]) simp
        qed
      qed
      moreover have "job_id e \<notin> id_job ` set (job_queue s)"
        using apart [of ?c] core by simp
      ultimately
      show "(k \<in> dom ((active_jobs s)(job_id e := None, ?n \<mapsto> stored\<lparr>start_time := time e\<rparr>))) =
            ((\<exists>c < length ((cores_busy s)[?c := True]). (cores_busy s)[?c := True] ! c
                 \<and> (cores_current_job s)[?c := ?n] ! c = k)
             \<or> k \<in> id_job ` set rest)"
        using dom [of k] next_job(4) by (auto simp: queue_ids)
    qed
    from next_job(2) have present: "job_id e \<in> dom (active_jobs s)" by auto
    from next_job(5) next_job(4)
    have "dom ((active_jobs s)(job_id e := None, ?n \<mapsto> stored\<lparr>start_time := time e\<rparr>))
          = dom (active_jobs s) - {job_id e}"
      by auto
    with card.remove [OF fin present] cnt have c5: "counters_ok s'"
      by (simp add: counters_ok_def jobs_in_system_def fields)
    from c1 c2 c3 c4 c5 show ?thesis by (simp add: consistent_def)
  qed
qed

lemma consistent_boundary:
  assumes "configured sim" and "event_boundary sim s"
  shows "consistent s"
  using assms(2)
proof (induction rule: event_boundary.induct)
  case start
  from assms(1) show ?case by (rule consistent_start)
next
  case (step s e s')
  from step.IH step.hyps(2) step.hyps(4) show ?case by (rule consistent_step)
qed

lemma process_event_returns:
  assumes inv: "consistent s" and mem: "e \<in> set (event_queue s)"
  shows "\<exists>s'. process_event e s = Inr s'"
proof (cases "type_ev e")
  case ARRIVAL
  with process_arrival_returns [of "at_event e s"] show ?thesis
    by (simp add: process_event_at)
next
  case DEPARTURE
  from inv have "departures_ok s" by (simp add: consistent_def)
  with mem DEPARTURE have "0 \<le> core_id e" "core_id e < num_cores (at_event e s)"
    by (auto simp: departures_ok_def)
  from process_departure_returns [OF this, of "job_id e"] DEPARTURE show ?thesis
    by (simp add: process_event_at)
qed

lemma top_ok_pick:
  assumes "top_ok pick" and "q \<noteq> []"
  shows "pick n q \<in> set q" and "\<forall>e \<in> set q. time (pick n q) \<le> time e"
  using assms unfolding top_ok_def by blast+

text \<open>The loop returns, and what it returns is the state at an event boundary.\<close>

lemma event_loop_boundary:
  assumes conf: "configured sim"
  shows "top_ok pick \<Longrightarrow> event_boundary sim s \<Longrightarrow>
         \<exists>s'. event_loop pick continue n s = Inr s' \<and> event_boundary sim s'"
proof (induction pick continue n s rule: event_loop.induct)
  case (1 pick continue n s)
  note pick = "1.prems"(1) and reach = "1.prems"(2)
  show ?case
  proof (cases "event_queue s \<noteq> [] \<and> continue s")
    case False
    with reach show ?thesis by (auto simp: event_loop.simps [of pick continue n s])
  next
    case go: True
    show ?thesis
    proof (cases "n + 1 > MAX_ITERATIONS")
      case True
      with go reach show ?thesis by (auto simp: event_loop.simps [of pick continue n s])
    next
      case False
      let ?e = "pick (n + 1) (event_queue s)"
      from go have ne: "event_queue s \<noteq> []" by simp
      note mem = top_ok_pick(1) [OF pick ne, of "n + 1"]
        and least = top_ok_pick(2) [OF pick ne, of "n + 1"]
      from consistent_boundary [OF conf reach] have inv: "consistent s" .
      from process_event_returns [OF inv mem] obtain s1 where s1: "process_event ?e s = Inr s1"
        by blast
      from reach mem least s1 have "event_boundary sim s1" by (rule event_boundary.step)
      from "1.IH" [OF go False s1 pick this] go False s1 show ?thesis
        by (simp add: event_loop.simps [of pick continue n s])
    qed
  qed
qed

lemma run_boundary:
  assumes "top_ok pick" and "configured sim"
  shows "\<exists>s. event_boundary sim s \<and> run pick simulation_time sim = Inr (update_busy_statistics s)"
proof -
  from event_loop_boundary [OF assms(2) assms(1) event_boundary.start]
  obtain s where "event_loop pick (\<lambda>s'. current_time s' < simulation_time) 0
             (schedule_next_arrival (initialize sim)) = Inr s" "event_boundary sim s"
    by blast
  then show ?thesis by (auto simp: run_def)
qed

lemma run_until_jobs_boundary:
  assumes "top_ok pick" and "configured sim"
  shows "\<exists>s. event_boundary sim s
           \<and> run_until_jobs pick jobs_to_process sim = Inr (update_busy_statistics s)"
proof -
  from event_loop_boundary [OF assms(2) assms(1) event_boundary.start]
  obtain s where "event_loop pick (\<lambda>s'. jobs_completed s' < jobs_to_process) 0
             (schedule_next_arrival (initialize sim)) = Inr s" "event_boundary sim s"
    by blast
  then show ?thesis by (auto simp: run_until_jobs_def)
qed

text \<open>Jobs in the system are the jobs in service and the buffered ones.\<close>

lemma jobs_in_system_placed:
  assumes "consistent s"
  shows "jobs_in_system s = count_busy_cores s + queue_length s"
proof -
  from assms have pl: "placed s" and conf: "configured s" by (simp_all add: consistent_def)
  let ?B = "{c. c < length (cores_busy s) \<and> cores_busy s ! c}"
  let ?A = "(\<lambda>c. cores_current_job s ! c) ` ?B"
  let ?Q = "id_job ` set (job_queue s)"
  from pl have member: "\<And>k. (k \<in> dom (active_jobs s)) =
            ((\<exists>c < length (cores_busy s). cores_busy s ! c \<and> cores_current_job s ! c = k)
             \<or> k \<in> ?Q)"
    and apart: "\<And>c. c < length (cores_busy s) \<Longrightarrow> cores_busy s ! c \<Longrightarrow>
            cores_current_job s ! c \<notin> ?Q"
    and inj: "\<And>c c'. c < length (cores_busy s) \<Longrightarrow> c' < length (cores_busy s) \<Longrightarrow>
            cores_busy s ! c \<Longrightarrow> cores_busy s ! c' \<Longrightarrow>
            cores_current_job s ! c = cores_current_job s ! c' \<Longrightarrow> c = c'"
    by (simp_all add: placed_def)
  have dom: "dom (active_jobs s) = ?A \<union> ?Q"
  proof (rule set_eqI)
    fix k
    have "(k \<in> ?A) = (\<exists>c < length (cores_busy s). cores_busy s ! c \<and> cores_current_job s ! c = k)"
      by auto
    with member [of k] show "(k \<in> dom (active_jobs s)) = (k \<in> ?A \<union> ?Q)" by simp
  qed
  have disj: "?A \<inter> ?Q = {}"
    using apart by auto
  have "inj_on (\<lambda>c. cores_current_job s ! c) ?B"
    by (rule inj_onI) (simp add: inj)
  then have "card ?A = card ?B" by (rule card_image)
  also have "\<dots> = length (filter (\<lambda>b. b) (cores_busy s))"
    by (simp add: length_filter_conv_card)
  finally have a: "int (card ?A) = count_busy_cores s"
    by (simp add: count_busy_cores_filter)
  from pl have "distinct (map id_job (job_queue s))" by (simp add: placed_def)
  then have q: "card ?Q = length (job_queue s)"
    using distinct_card [of "map id_job (job_queue s)"] by simp
  have "card (?A \<union> ?Q) = card ?A + card ?Q"
    using disj by (intro card_Un_disjoint) simp_all
  with a q dom show ?thesis
    by (simp add: jobs_in_system_def queue_length_def)
qed

text \<open>The configuration never changes, and an unbounded buffer loses nothing.\<close>

lemma boundary_configuration:
  assumes "configured sim" and "event_boundary sim s"
  shows "num_cores s = num_cores sim \<and> buffer_capacity s = buffer_capacity sim"
  using assms(2)
proof (induction rule: event_boundary.induct)
  case start
  show ?case by (simp add: schedule_next_arrival_alt initialize_def)
next
  case (step s e s')
  from consistent_boundary [OF assms(1) step.hyps(1)] step.hyps(2) step.hyps(4) step.IH
  show ?case
    by (cases rule: process_event_cases) (simp_all add: schedule_next_arrival_alt)
qed

lemma boundary_lossless:
  assumes "configured sim" and "buffer_capacity sim = -1" and "event_boundary sim s"
  shows "jobs_lost s = 0"
  using assms(3)
proof (induction rule: event_boundary.induct)
  case start
  show ?case by (simp add: schedule_next_arrival_alt initialize_def)
next
  case (step s e s')
  from boundary_configuration [OF assms(1) step.hyps(1)] assms(2)
  have "\<not> buffer_full s" by (simp add: buffer_full_def)
  with consistent_boundary [OF assms(1) step.hyps(1)] step.hyps(2) step.hyps(4) step.IH
  show ?case
    by (cases rule: process_event_cases) (simp_all add: schedule_next_arrival_alt)
qed

lemma all_busy_no_free_core:
  assumes "configured s" and "\<forall>c < length (cores_busy s). cores_busy s ! c"
  shows "find_free_core s = -1"
proof (rule ccontr)
  assume "find_free_core s \<noteq> -1"
  with find_free_core_result [of s]
  have "0 \<le> find_free_core s" "find_free_core s < num_cores s"
    "\<not> cores_busy s ! nat (find_free_core s)" by auto
  moreover from this(1,2) assms(1) have "nat (find_free_core s) < length (cores_busy s)"
    by (simp add: configured_def)
  ultimately show False using assms(2) by blast
qed

lemma boundary_no_queue:
  assumes "configured sim" and "buffer_capacity sim < -1" and "event_boundary sim s"
  shows "job_queue s = []"
  using assms(3)
proof (induction rule: event_boundary.induct)
  case start
  show ?case by (simp add: schedule_next_arrival_alt initialize_def)
next
  case (step s e s')
  from boundary_configuration [OF assms(1) step.hyps(1)] assms(2)
  have "buffer_full s" by (simp add: buffer_full_def)
  with consistent_boundary [OF assms(1) step.hyps(1)] step.hyps(2) step.hyps(4) step.IH
  show ?case
    by (cases rule: process_event_cases) (simp_all add: schedule_next_arrival_alt)
qed

subsection \<open>The first-pushed-earliest choice and the concrete engine\<close>

lemma earliest_mem: "earliest e xs \<in> set (e # xs)"
  by (induction xs arbitrary: e) (auto split: if_splits)

lemma earliest_le: "time (earliest e xs) \<le> time e" for e :: "real Event"
proof (induction xs arbitrary: e)
  case Nil
  then show ?case by simp
next
  case (Cons x xs)
  show ?case using Cons.IH [of x] Cons.IH [of e] by auto
qed

lemma earliest_min: "y \<in> set xs \<Longrightarrow> time (earliest e xs) \<le> time y" for e :: "real Event"
proof (induction xs arbitrary: e)
  case Nil
  then show ?case by simp
next
  case (Cons x xs)
  show ?case
  proof (cases "y = x")
    case True
    then show ?thesis using earliest_le [of x xs] earliest_le [of e xs] by auto
  next
    case False
    with Cons.prems have "y \<in> set xs" by simp
    then show ?thesis using Cons.IH by auto
  qed
qed

lemma first_earliest_ok: "top_ok (first_earliest :: real tie_break)"
  unfolding top_ok_def first_earliest_def
proof (intro allI impI conjI ballI)
  fix n :: int and q :: "real Event list"
  assume "q \<noteq> []"
  then obtain p ps where q: "q = p # ps" by (cases q) auto
  show "earliest (hd q) (tl q) \<in> set q"
    using earliest_mem [of p ps] by (simp add: q)
  fix y assume "y \<in> set q"
  then show "time (earliest (hd q) (tl q)) \<le> time y"
    using earliest_le [of p ps] earliest_min [of y ps p] by (auto simp: q)
qed

lemma single_server_start:
  "schedule_next_arrival (initialize (single_server d v cap))
   = (single_server d v cap)\<lparr>event_queue := [Event_arrival d]\<rparr>" for d :: real
  by (simp add: single_server_def initialize_def schedule_next_arrival_def)

lemma single_server_first_arrival:
  assumes "0 < d"
  shows "process_event (Event_arrival d) ((single_server d v cap)\<lparr>event_queue := [Event_arrival d]\<rparr>)
         = Inr (after_first_arrival d v cap)"
  using assms
  by (simp add: single_server_def after_first_arrival_def process_event_def
        update_busy_statistics_def
        count_busy_cores_def process_arrival_def Job_new_def add_job_def find_free_core_def
        find_free_core_from.simps occupy_core_def active_jobs_at_def schedule_departure_def
        schedule_next_arrival_def Event_arrival_def Event_departure_def Let_def)

lemma first_earliest_single [simp]: "first_earliest n [e] = e"
  by (simp add: first_earliest_def)

lemma single_server_boundary:
  assumes "0 < d"
  shows "event_boundary (single_server d v cap) (after_first_arrival d v cap)"
proof -
  have "event_boundary (single_server d v cap)
          ((single_server d v cap)\<lparr>event_queue := [Event_arrival d]\<rparr>)"
    using event_boundary.start [of "single_server d v cap"] by (simp only: single_server_start)
  then show ?thesis
    by (rule event_boundary.step [where e = "Event_arrival d"])
       (simp_all add: single_server_first_arrival [OF assms])
qed

lemma single_server_short_run:
  assumes "0 < T" and "T \<le> d"
  shows "run first_earliest T (single_server d v cap) = Inr (after_first_arrival d v cap)"
    and "processed_events first_earliest (\<lambda>s'. current_time s' < T) 0
           (schedule_next_arrival (initialize (single_server d v cap))) = [Event_arrival d]"
proof -
  from assms have d: "0 < d" and stop: "\<not> d < T" by simp_all
  have now: "current_time (single_server d v cap) = 0" by (simp add: single_server_def)
  have later: "current_time (after_first_arrival d v cap) = d"
    "last_busy_check_time (after_first_arrival d v cap) = d"
    by (simp_all add: after_first_arrival_def)
  have "event_loop first_earliest (\<lambda>s'. current_time s' < T) 0
          ((single_server d v cap)\<lparr>event_queue := [Event_arrival d]\<rparr>)
        = Inr (after_first_arrival d v cap)"
    apply (subst event_loop.simps)
    apply (simp add: single_server_first_arrival [OF d] MAX_ITERATIONS_def now assms)
    apply (subst event_loop.simps)
    apply (simp add: later stop)
    done
  then show "run first_earliest T (single_server d v cap) = Inr (after_first_arrival d v cap)"
    by (simp add: run_def single_server_start update_busy_statistics_def later)
  have "processed_events first_earliest (\<lambda>s'. current_time s' < T) 0
          ((single_server d v cap)\<lparr>event_queue := [Event_arrival d]\<rparr>) = [Event_arrival d]"
    apply (subst processed_events.simps)
    apply (simp add: single_server_first_arrival [OF d] MAX_ITERATIONS_def now assms)
    apply (subst processed_events.simps)
    apply (simp add: later stop)
    done
  then show "processed_events first_earliest (\<lambda>s'. current_time s' < T) 0
           (schedule_next_arrival (initialize (single_server d v cap))) = [Event_arrival d]"
    by (simp only: single_server_start)
qed

lemma after_first_arrival_counters:
  "jobs_completed (after_first_arrival d v cap) = 0"
  "jobs_lost (after_first_arrival d v cap) = 0"
  "total_arrivals (after_first_arrival d v cap) = 1"
  "jobs_in_system (after_first_arrival d v cap) = 1"
  "count_busy_cores (after_first_arrival d v cap) = 1"
  "queue_length (after_first_arrival d v cap) = 0"
  "current_time (after_first_arrival d v cap) = d"
  by (simp_all add: after_first_arrival_def single_server_def jobs_in_system_def
        count_busy_cores_def queue_length_def)

subsection \<open>The clock and the horizon of \<open>run\<close>\<close>

lemma processed_events_before:
  "\<forall>e \<in> set (butlast (processed_events pick (\<lambda>s'. current_time s' < T) n s)). time e < T"
proof (induction pick "\<lambda>s'::real Simulator. current_time s' < T" n s
         rule: processed_events.induct)
  case (1 pick n s)
  let ?e = "pick (n + 1) (event_queue s)"
  show ?case
  proof (cases "(event_queue s \<noteq> [] \<and> current_time s < T) \<and> \<not> n + 1 > MAX_ITERATIONS")
    case False
    then show ?thesis
      by (auto simp: processed_events.simps [of pick _ n s])
  next
    case go: True
    show ?thesis
    proof (cases "process_event ?e s")
      case (Inl err)
      with go show ?thesis by (simp add: processed_events.simps [of pick _ n s])
    next
      case (Inr s1)
      from go Inr have IH: "\<forall>e \<in> set (butlast (processed_events pick (\<lambda>s'. current_time s' < T)
                               (n + 1) s1)). time e < T"
        by (intro "1.hyps") simp_all
      show ?thesis
      proof (cases "processed_events pick (\<lambda>s'. current_time s' < T) (n + 1) s1 = []")
        case True
        with go Inr show ?thesis by (simp add: processed_events.simps [of pick _ n s])
      next
        case False
        then have "current_time s1 < T"
          by (auto simp: processed_events.simps [of pick _ "n + 1" s1] split: if_splits)
        with process_event_time [OF Inr] have "time ?e < T" by simp
        with go Inr False IH show ?thesis
          by (simp add: processed_events.simps [of pick _ n s])
      qed
    qed
  qed
qed

lemma event_loop_clock:
  "event_loop pick continue n s = Inr s' \<Longrightarrow>
     current_time s' = (if processed_events pick continue n s = [] then current_time s
                        else time (last (processed_events pick continue n s)))"
proof (induction pick continue n s rule: event_loop.induct)
  case (1 pick continue n s)
  let ?e = "pick (n + 1) (event_queue s)"
  show ?case
  proof (cases "(event_queue s \<noteq> [] \<and> continue s) \<and> \<not> n + 1 > MAX_ITERATIONS")
    case False
    with "1.prems" show ?thesis
      by (auto simp: processed_events.simps [of pick continue n s]
            event_loop.simps [of pick continue n s] split: if_splits)
  next
    case go: True
    show ?thesis
    proof (cases "process_event ?e s")
      case (Inl err)
      with go "1.prems" show ?thesis by (simp add: event_loop.simps [of pick continue n s])
    next
      case (Inr s1)
      with go "1.prems" have rest: "event_loop pick continue (n + 1) s1 = Inr s'"
        by (simp add: event_loop.simps [of pick continue n s])
      from go Inr rest have IH: "current_time s' =
          (if processed_events pick continue (n + 1) s1 = [] then current_time s1
           else time (last (processed_events pick continue (n + 1) s1)))"
        by (intro "1.IH") simp_all
      with go Inr process_event_time [OF Inr] show ?thesis
        by (simp add: processed_events.simps [of pick continue n s])
    qed
  qed
qed

text \<open>
  C1, as the code has it. The loop of \<open>run(T)\<close> tests the clock, not the time of the
  next event: it takes the next event whenever the queue is not empty and
  \<open>current_time < T\<close>. So \<open>run(T)\<close> returns; every event it processes, except
  possibly the last, has a time below \<open>T\<close>; and \<open>current_time\<close> after the run is
  the time of the last processed event (0 when none was processed), which may be \<open>T\<close>
  or more.
\<close>

theorem run_stops_on_clock:
  fixes sim :: "real Simulator"
  assumes new: "Simulator_new arrival_gen service_gen cores buffer_cap = Inr sim"
    and pick: "top_ok pick"
  shows "(\<exists>s'. run pick simulation_time sim = Inr s'
           \<and> current_time s' =
               (if processed_events pick (\<lambda>s'. current_time s' < simulation_time) 0
                     (schedule_next_arrival (initialize sim)) = [] then 0
                else time (last (processed_events pick (\<lambda>s'. current_time s' < simulation_time) 0
                     (schedule_next_arrival (initialize sim))))))
       \<and> (\<forall>e \<in> set (butlast (processed_events pick (\<lambda>s'. current_time s' < simulation_time) 0
                     (schedule_next_arrival (initialize sim)))). time e < simulation_time)"
proof -
  from event_loop_boundary [OF configured_new [OF new] pick event_boundary.start]
  obtain s where s: "event_loop pick (\<lambda>s'. current_time s' < simulation_time) 0
             (schedule_next_arrival (initialize sim)) = Inr s"
    by blast
  have "current_time (schedule_next_arrival (initialize sim)) = 0"
    by (simp add: schedule_next_arrival_alt initialize_def)
  with event_loop_clock [OF s] s processed_events_before [of pick simulation_time 0]
  show ?thesis by (simp add: run_def)
qed

theorem run_stops_on_clock_witness:
  "Simulator_new (det_gen (3::real)) (det_gen 1) 1 (-1) = Inr (single_server 3 1 (-1))
   \<and> top_ok (first_earliest :: real tie_break)
   \<and> run first_earliest 2 (single_server 3 1 (-1)) = Inr (after_first_arrival 3 1 (-1))
   \<and> processed_events first_earliest (\<lambda>s'. current_time s' < 2) 0
        (schedule_next_arrival (initialize (single_server 3 1 (-1)))) = [Event_arrival 3]
   \<and> current_time (after_first_arrival 3 1 (-1)) = time (last [Event_arrival 3])
   \<and> list_all (\<lambda>e. time e < 2) (butlast [Event_arrival (3::real)])"
  using run_stops_on_clock [OF single_server_new [of 3 1 "-1"] first_earliest_ok,
          where simulation_time = 2]
    single_server_short_run [of 2 3 1 "-1"]
  by (simp add: single_server_new first_earliest_ok after_first_arrival_counters
        Event_arrival_def)

text \<open>
  C1 as stated fails. With \<open>Deterministic(3)\<close> arrivals, one core and \<open>T = 2\<close>,
  the first arrival is due at time 3; the clock stands at \<open>0 < 2\<close>, so the loop
  processes it, and \<open>run(2)\<close> ends with \<open>current_time = 3 > 2\<close>.
\<close>

theorem run_overshoots:
  "DeterministicGenerator (3::real) = Inr (det_gen 3)
   \<and> DeterministicGenerator (1::real) = Inr (det_gen 1)
   \<and> Simulator_new (det_gen (3::real)) (det_gen 1) 1 (-1) = Inr (single_server 3 1 (-1))
   \<and> run first_earliest 2 (single_server 3 1 (-1)) = Inr (after_first_arrival 3 1 (-1))
   \<and> current_time (after_first_arrival 3 1 (-1)) = 3
   \<and> processed_events first_earliest (\<lambda>s'. current_time s' < 2) 0
        (schedule_next_arrival (initialize (single_server 3 1 (-1)))) = [Event_arrival 3]
   \<and> time (Event_arrival (3::real)) = 3 \<and> \<not> (3::real) \<le> 2"
  using single_server_short_run [of 2 3 1 "-1"]
  by (simp add: det_gen_new single_server_new after_first_arrival_counters Event_arrival_def)

subsection \<open>Counters\<close>

text \<open>
  C2. At every event boundary of a run, \<open>jobs_completed + jobs_lost +\<close> the number of
  jobs in the system \<open>= total_arrivals\<close>; and the jobs in the system
  (\<open>jobs_in_system()\<close>, the size of \<open>active_jobs_\<close>) are the jobs in service and the
  buffered ones.
\<close>

theorem counter_equation_at_event_boundaries:
  fixes sim :: "real Simulator"
  assumes "Simulator_new arrival_gen service_gen cores buffer_cap = Inr sim"
    and "event_boundary sim s"
  shows "jobs_completed s + jobs_lost s + jobs_in_system s = total_arrivals s
         \<and> jobs_in_system s = count_busy_cores s + queue_length s"
proof -
  from configured_new [OF assms(1)] assms(2) have inv: "consistent s"
    by (rule consistent_boundary)
  then have "counters_ok s" by (simp add: consistent_def)
  with jobs_in_system_placed [OF inv] show ?thesis by (simp add: counters_ok_def)
qed

theorem counter_equation_witness:
  "Simulator_new (det_gen (3::real)) (det_gen 1) 1 (-1) = Inr (single_server 3 1 (-1))
   \<and> event_boundary (single_server 3 1 (-1)) (after_first_arrival 3 1 (-1))
   \<and> jobs_completed (after_first_arrival 3 1 (-1)) + jobs_lost (after_first_arrival 3 1 (-1))
       + jobs_in_system (after_first_arrival 3 1 (-1)) = total_arrivals (after_first_arrival 3 1 (-1))
   \<and> jobs_in_system (after_first_arrival 3 1 (-1))
       = count_busy_cores (after_first_arrival 3 1 (-1)) + queue_length (after_first_arrival 3 1 (-1))
   \<and> total_arrivals (after_first_arrival 3 1 (-1)) = 1"
  using counter_equation_at_event_boundaries [OF single_server_new [of 3 1 "-1"]
          single_server_boundary [of 3 1 "-1"]]
  by (simp add: single_server_new single_server_boundary after_first_arrival_counters)

text \<open>
  C3. Every run returns, and at its end \<open>jobs_completed + jobs_lost \<le> total_arrivals\<close>;
  with an unbounded buffer (capacity \<open>-1\<close>; a constructed engine has at least one
  core) \<open>jobs_lost\<close> is 0, at the end of \<open>run\<close> and of \<open>run_until_jobs\<close> and at
  every event boundary.
\<close>

theorem completed_and_lost_bounded:
  fixes sim :: "real Simulator"
  assumes new: "Simulator_new arrival_gen service_gen cores buffer_cap = Inr sim"
    and pick: "top_ok pick"
  shows "(\<exists>s'. run pick simulation_time sim = Inr s'
            \<and> jobs_completed s' + jobs_lost s' \<le> total_arrivals s'
            \<and> (buffer_cap = -1 \<longrightarrow> jobs_lost s' = 0))
       \<and> (\<exists>s'. run_until_jobs pick jobs_to_process sim = Inr s'
            \<and> jobs_completed s' + jobs_lost s' \<le> total_arrivals s'
            \<and> (buffer_cap = -1 \<longrightarrow> jobs_lost s' = 0))
       \<and> (\<forall>s. event_boundary sim s \<longrightarrow>
            jobs_completed s + jobs_lost s \<le> total_arrivals s
            \<and> (buffer_cap = -1 \<longrightarrow> jobs_lost s = 0))"
proof -
  note conf = configured_new [OF new]
  from new have cap: "buffer_capacity sim = buffer_cap"
    by (auto simp: Simulator_new_def split: if_splits)
  have at: "jobs_completed s + jobs_lost s \<le> total_arrivals s
            \<and> (buffer_cap = -1 \<longrightarrow> jobs_lost s = 0)" if "event_boundary sim s" for s
  proof -
    from consistent_boundary [OF conf that] have "counters_ok s" by (simp add: consistent_def)
    then have "jobs_completed s + jobs_lost s \<le> total_arrivals s"
      by (simp add: counters_ok_def jobs_in_system_def)
    with boundary_lossless [OF conf _ that] cap show ?thesis by simp
  qed
  from run_boundary [OF pick conf, of simulation_time] obtain s1 where
    s1: "event_boundary sim s1" "run pick simulation_time sim = Inr (update_busy_statistics s1)"
    by blast
  from run_until_jobs_boundary [OF pick conf, of jobs_to_process] obtain s2 where
    s2: "event_boundary sim s2"
      "run_until_jobs pick jobs_to_process sim = Inr (update_busy_statistics s2)"
    by blast
  from at [OF s1(1)] s1(2) at [OF s2(1)] s2(2) at show ?thesis
    by simp
qed

theorem completed_and_lost_bounded_witness:
  "Simulator_new (det_gen (3::real)) (det_gen 1) 1 (-1) = Inr (single_server 3 1 (-1))
   \<and> top_ok (first_earliest :: real tie_break)
   \<and> run first_earliest 2 (single_server 3 1 (-1)) = Inr (after_first_arrival 3 1 (-1))
   \<and> jobs_completed (after_first_arrival 3 1 (-1)) + jobs_lost (after_first_arrival 3 1 (-1))
        \<le> total_arrivals (after_first_arrival 3 1 (-1))
   \<and> jobs_lost (after_first_arrival 3 1 (-1)) = 0"
  using completed_and_lost_bounded [OF single_server_new [of 3 1 "-1"] first_earliest_ok,
          where simulation_time = 2 and jobs_to_process = 0]
    single_server_short_run [of 2 3 1 "-1"]
  by (simp add: single_server_new first_earliest_ok after_first_arrival_counters)

text \<open>
  C10. A negative capacity other than \<open>-1\<close> is accepted by the constructor, and the
  engine then behaves as with capacity 0: at every event boundary \<open>buffer_full()\<close>
  is true and \<open>queue_length()\<close> is 0, and every arrival that finds all cores busy is
  counted as lost and is not kept in the system.
\<close>

theorem negative_capacity_loses_instead_of_buffering:
  fixes arrival_gen service_gen :: "real RandomGenerator"
  assumes cap: "buffer_cap < -1" and cores: "0 < cores"
  shows "\<exists>sim. Simulator_new arrival_gen service_gen cores buffer_cap = Inr sim
     \<and> (\<forall>s. event_boundary sim s \<longrightarrow>
           buffer_full s \<and> queue_length s = 0
           \<and> (\<forall>e \<in> set (event_queue s).
                 type_ev e = ARRIVAL \<and> (\<forall>c < length (cores_busy s). cores_busy s ! c) \<longrightarrow>
                 (\<exists>s'. process_event e s = Inr s' \<and> jobs_lost s' = jobs_lost s + 1
                        \<and> queue_length s' = 0 \<and> jobs_in_system s' = jobs_in_system s)))"
proof -
  from cores obtain sim where new: "Simulator_new arrival_gen service_gen cores buffer_cap = Inr sim"
    by (auto simp: Simulator_new_def)
  note conf = configured_new [OF new]
  from new have sim_cap: "buffer_capacity sim = buffer_cap"
    by (auto simp: Simulator_new_def split: if_splits)
  have at: "buffer_full s \<and> queue_length s = 0
           \<and> (\<forall>e \<in> set (event_queue s).
                 type_ev e = ARRIVAL \<and> (\<forall>c < length (cores_busy s). cores_busy s ! c) \<longrightarrow>
                 (\<exists>s'. process_event e s = Inr s' \<and> jobs_lost s' = jobs_lost s + 1
                        \<and> queue_length s' = 0 \<and> jobs_in_system s' = jobs_in_system s))"
    if reach: "event_boundary sim s" for s
  proof -
    from boundary_configuration [OF conf reach] sim_cap cap
    have full: "buffer_full s" by (simp add: buffer_full_def)
    from boundary_no_queue [OF conf _ reach] sim_cap cap
    have empty: "queue_length s = 0" by (simp add: queue_length_def)
    note inv = consistent_boundary [OF conf reach]
    have "\<exists>s'. process_event e s = Inr s' \<and> jobs_lost s' = jobs_lost s + 1
                        \<and> queue_length s' = 0 \<and> jobs_in_system s' = jobs_in_system s"
      if mem: "e \<in> set (event_queue s)" and arr: "type_ev e = ARRIVAL"
        and busy: "\<forall>c < length (cores_busy s). cores_busy s ! c" for e
    proof -
      from inv have "configured s" "ids_fresh s" by (simp_all add: consistent_def)
      with busy have none: "find_free_core s = -1" and new_id: "next_job_id s \<notin> dom (active_jobs s)"
        by (auto simp: all_busy_no_free_core ids_fresh_def)
      from new_id have same: "(active_jobs s)(next_job_id s := None) = active_jobs s"
        by (auto simp: domIff)
      from none full have "process_arrival (at_event e s) =
        Inr (schedule_next_arrival
          ((at_event e s)\<lparr>total_arrivals := total_arrivals s + 1,
             service_generator := snd (generate (service_generator s)),
             next_job_id := next_job_id s + 1,
             jobs_lost := jobs_lost s + 1,
             active_jobs := (active_jobs s)(next_job_id s := None)\<rparr>))"
        using process_arrival_lost [of "at_event e s"] by simp
      with arr empty same show ?thesis
        by (simp add: process_event_at schedule_next_arrival_alt queue_length_def
              jobs_in_system_def)
    qed
    with full empty show ?thesis by blast
  qed
  with new show ?thesis by blast
qed

theorem negative_capacity_witness:
  "(-5::int) < -1 \<and> (0::int) < 1
   \<and> Simulator_new (det_gen (1::real)) (det_gen 3) 1 (-5) = Inr (single_server 1 3 (-5))
   \<and> event_boundary (single_server 1 3 (-5)) (after_first_arrival 1 3 (-5))
   \<and> buffer_full (after_first_arrival 1 3 (-5))
   \<and> queue_length (after_first_arrival 1 3 (-5)) = 0
   \<and> Event_arrival 2 \<in> set (event_queue (after_first_arrival 1 3 (-5)))
   \<and> cores_busy (after_first_arrival 1 3 (-5)) = [True]
   \<and> (\<exists>s'. process_event (Event_arrival 2) (after_first_arrival 1 3 (-5)) = Inr s'
          \<and> jobs_lost s' = 1 \<and> queue_length s' = 0)"
proof -
  have c: "(-5::int) < -1" and n: "(0::int) < 1" by simp_all
  from negative_capacity_loses_instead_of_buffering [OF c n, of "det_gen 1" "det_gen 3"]
  have all: "\<And>s. event_boundary (single_server 1 3 (-5)) s \<Longrightarrow>
           buffer_full s \<and> queue_length s = 0
           \<and> (\<forall>e \<in> set (event_queue s).
                 type_ev e = ARRIVAL \<and> (\<forall>c < length (cores_busy s). cores_busy s ! c) \<longrightarrow>
                 (\<exists>s'. process_event e s = Inr s' \<and> jobs_lost s' = jobs_lost s + 1
                        \<and> queue_length s' = 0 \<and> jobs_in_system s' = jobs_in_system s))"
    by (simp add: single_server_new)
  have reach: "event_boundary (single_server 1 3 (-5)) (after_first_arrival 1 3 (-5))"
    by (rule single_server_boundary) simp
  have mem: "Event_arrival 2 \<in> set (event_queue (after_first_arrival 1 3 (-5)))"
    and arr: "type_ev (Event_arrival 2) = ARRIVAL"
    and busy: "cores_busy (after_first_arrival 1 3 (-5)) = [True]"
    by (simp_all add: after_first_arrival_def Event_arrival_def)
  from all [OF reach] mem arr busy
  have "\<exists>s'. process_event (Event_arrival 2) (after_first_arrival 1 3 (-5)) = Inr s'
          \<and> jobs_lost s' = jobs_lost (after_first_arrival 1 3 (-5)) + 1 \<and> queue_length s' = 0"
    by fastforce
  with all [OF reach] reach mem busy show ?thesis
    by (simp add: single_server_new after_first_arrival_counters)
qed

subsection \<open>Constant inter-arrival and service times\<close>

lemma arrivals_chain_append:
  "arrivals_chain d q \<Longrightarrow> (q \<noteq> [] \<longrightarrow> arrival_time j = arrival_time (last q) + d)
   \<Longrightarrow> arrivals_chain d (q @ [j])"
proof (induction d q rule: arrivals_chain.induct)
  case (1 d)
  then show ?case by simp
next
  case (2 d j1)
  then show ?case by simp
next
  case (3 d j1 j2 js)
  then show ?case by simp
qed

lemma arrivals_chain_tl: "arrivals_chain d (j # q) \<Longrightarrow> arrivals_chain d q"
  by (cases q) simp_all

lemma generate_deterministic:
  "kind g = Deterministic v \<Longrightarrow> generate g = (v, g)"
  by (simp add: generate_def)

lemma no_wait_start:
  assumes "Simulator_new arrival_gen service_gen 1 (-1) = Inr sim"
    and "kind arrival_gen = Deterministic d" and "kind service_gen = Deterministic v"
  shows "no_wait_inv d v (schedule_next_arrival (initialize sim))"
proof -
  from assms(1) have sim: "sim = \<lparr>current_time = 0, jobs_completed = 0, jobs_lost = 0,
                next_job_id = 0, total_arrivals = 0,
                arrival_generator = arrival_gen, service_generator = service_gen,
                num_cores = 1, buffer_capacity = -1,
                event_queue = [], job_queue = [],
                cores_busy = replicate (nat 1) False,
                cores_finish_time = replicate (nat 1) 0,
                cores_current_job = replicate (nat 1) (-1),
                active_jobs = Map.empty, wait_times = [], system_times = [],
                total_busy_time = 0, last_busy_check_time = 0\<rparr>"
    by (simp add: Simulator_new_def)
  show ?thesis
    unfolding no_wait_inv_def
    by (rule exI [of _ d])
       (simp add: sim schedule_next_arrival_alt initialize_def assms(2,3)
          generate_deterministic Event_arrival_def)
qed

lemma fold_zero: "\<forall>w \<in> set ws. w = (0::real) \<Longrightarrow> fold (\<lambda>t sum. sum + t) ws 0 = 0"
  by (induction ws) simp_all

lemma no_wait_avg: "no_wait_inv d v s \<Longrightarrow> avg_wait_time s = 0"
  by (auto simp: no_wait_inv_def avg_wait_time_def fold_zero)


lemma no_wait_inv_busy:
  assumes "num_cores s = 1" and "buffer_capacity s = -1"
    and "length (cores_busy s) = 1" and "length (cores_current_job s) = 1"
    and "kind (arrival_generator s) = Deterministic d"
    and "kind (service_generator s) = Deterministic v"
    and "\<forall>w \<in> set (wait_times s). w = 0"
    and "filter (\<lambda>e. type_ev e = ARRIVAL) (event_queue s) = [Event_arrival a]"
    and "\<forall>k \<in> dom (active_jobs s). k < next_job_id s"
    and "distinct (map id_job (job_queue s))"
    and "\<forall>j \<in> set (job_queue s). active_jobs s (id_job j) = Some j \<and> service_time j = v"
    and "arrivals_chain d (job_queue s)"
    and "job_queue s \<noteq> [] \<longrightarrow> a = arrival_time (last (job_queue s)) + d \<and> v = d"
    and "cores_busy s ! 0"
    and "filter (\<lambda>e. type_ev e = DEPARTURE) (event_queue s)
           = [Event_departure D (cores_current_job s ! 0) 0]"
    and "active_jobs s (cores_current_job s ! 0) = Some j"
    and "wait_time j = 0"
    and "cores_current_job s ! 0 \<notin> id_job ` set (job_queue s)"
    and "case job_queue s of [] \<Rightarrow> D + d = a + v | j1 # rest \<Rightarrow> D = arrival_time j1"
  shows "no_wait_inv d v s"
proof -
  from assms(14-19) have "if cores_busy s ! 0 then
              (\<exists>D j. filter (\<lambda>e. type_ev e = DEPARTURE) (event_queue s)
                       = [Event_departure D (cores_current_job s ! 0) 0]
                 \<and> active_jobs s (cores_current_job s ! 0) = Some j
                 \<and> wait_time j = 0
                 \<and> cores_current_job s ! 0 \<notin> id_job ` set (job_queue s)
                 \<and> (case job_queue s of
                       [] \<Rightarrow> D + d = a + v
                     | j1 # rest \<Rightarrow> D = arrival_time j1))
            else filter (\<lambda>e. type_ev e = DEPARTURE) (event_queue s) = [] \<and> job_queue s = []"
    by (simp only: if_True) blast
  with assms(1-13) show ?thesis
    unfolding no_wait_inv_def by (intro exI [of _ a] conjI)
qed

lemma no_wait_inv_idle:
  assumes "num_cores s = 1" and "buffer_capacity s = -1"
    and "length (cores_busy s) = 1" and "length (cores_current_job s) = 1"
    and "kind (arrival_generator s) = Deterministic d"
    and "kind (service_generator s) = Deterministic v"
    and "\<forall>w \<in> set (wait_times s). w = 0"
    and "filter (\<lambda>e. type_ev e = ARRIVAL) (event_queue s) = [Event_arrival a]"
    and "\<forall>k \<in> dom (active_jobs s). k < next_job_id s"
    and "\<not> cores_busy s ! 0"
    and "filter (\<lambda>e. type_ev e = DEPARTURE) (event_queue s) = []"
    and "job_queue s = []"
  shows "no_wait_inv d v s"
  unfolding no_wait_inv_def using assms by (intro exI [of _ a]) simp

lemma single_filter_member:
  assumes "filter P q = [x]" and "e \<in> set q" and "P e"
  shows "e = x"
proof -
  from assms(2,3) have "e \<in> set (filter P q)" by simp
  with assms(1) show ?thesis by simp
qed

lemma empty_filter_member:
  assumes "filter P q = []" and "e \<in> set q"
  shows "\<not> P e"
proof
  assume "P e"
  with assms(2) have "e \<in> set (filter P q)" by simp
  with assms(1) show False by simp
qed

lemma no_wait_step:
  assumes inv: "consistent s" and W: "no_wait_inv d v s" and dv: "v \<le> d"
    and mem: "e \<in> set (event_queue s)"
    and least: "\<forall>e' \<in> set (event_queue s). time e \<le> time e'"
    and step: "process_event e s = Inr s'"
  shows "no_wait_inv d v s'"
proof -
  from W obtain a where
    cores: "num_cores s = 1" and cap: "buffer_capacity s = -1"
    and len: "length (cores_busy s) = 1" "length (cores_current_job s) = 1"
    and kinds: "kind (arrival_generator s) = Deterministic d"
      "kind (service_generator s) = Deterministic v"
    and waits: "\<forall>w \<in> set (wait_times s). w = 0"
    and arrivals: "filter (\<lambda>e. type_ev e = ARRIVAL) (event_queue s) = [Event_arrival a]"
    and below: "\<forall>k \<in> dom (active_jobs s). k < next_job_id s"
    and qdist: "distinct (map id_job (job_queue s))"
    and stored: "\<forall>j \<in> set (job_queue s). active_jobs s (id_job j) = Some j \<and> service_time j = v"
    and chain: "arrivals_chain d (job_queue s)"
    and tail: "job_queue s \<noteq> [] \<longrightarrow> a = arrival_time (last (job_queue s)) + d \<and> v = d"
    and server: "if cores_busy s ! 0 then
              (\<exists>D j. filter (\<lambda>e. type_ev e = DEPARTURE) (event_queue s)
                       = [Event_departure D (cores_current_job s ! 0) 0]
                 \<and> active_jobs s (cores_current_job s ! 0) = Some j
                 \<and> wait_time j = 0
                 \<and> cores_current_job s ! 0 \<notin> id_job ` set (job_queue s)
                 \<and> (case job_queue s of
                       [] \<Rightarrow> D + d = a + v
                     | j1 # rest \<Rightarrow> D = arrival_time j1))
            else filter (\<lambda>e. type_ev e = DEPARTURE) (event_queue s) = [] \<and> job_queue s = []"
    unfolding no_wait_inv_def by blast
  note gen = generate_deterministic [OF kinds(1)] generate_deterministic [OF kinds(2)]
  have new: "next_job_id s \<notin> dom (active_jobs s)"
    using below by auto
  have below_le: "\<forall>k \<in> dom (active_jobs s). k \<le> next_job_id s"
    using below less_imp_le by blast
  have queued_old: "next_job_id s \<notin> id_job ` set (job_queue s)"
  proof
    assume "next_job_id s \<in> id_job ` set (job_queue s)"
    then obtain x where "x \<in> set (job_queue s)" "next_job_id s = id_job x" by auto
    with stored new show False by (auto simp: domIff)
  qed
  have arrival_event: "e = Event_arrival a" "time e = a" if "type_ev e = ARRIVAL"
    using single_filter_member [OF arrivals mem] that by (simp_all add: Event_arrival_def)
  have arr_rest: "filter (\<lambda>e. type_ev e = ARRIVAL) (remove1 e (event_queue s))
                  = (if type_ev e = ARRIVAL then [] else [Event_arrival a])"
  proof (cases "type_ev e = ARRIVAL")
    case True
    with arrival_event(1) arrivals show ?thesis by (simp add: filter_remove1)
  next
    case False
    then have "e \<notin> set (filter (\<lambda>e. type_ev e = ARRIVAL) (event_queue s))" by simp
    then have "remove1 e (filter (\<lambda>e. type_ev e = ARRIVAL) (event_queue s))
               = filter (\<lambda>e. type_ev e = ARRIVAL) (event_queue s)"
      by (rule remove1_idem)
    with False arrivals show ?thesis
      by (simp add: filter_remove1)
  qed
  have free_core: "find_free_core s = 0 \<and> \<not> cores_busy s ! 0" if "find_free_core s \<noteq> -1"
    using find_free_core_result [of s] that cores by auto
  have no_core: "cores_busy s ! 0" if "find_free_core s = -1"
    using find_free_core_result [of s] that cores by auto
  have dep_event: "\<exists>D. cores_busy s ! 0 \<and> e = Event_departure D (cores_current_job s ! 0) 0
      \<and> filter (\<lambda>e. type_ev e = DEPARTURE) (event_queue s) = [e]
      \<and> (\<forall>x. active_jobs s (cores_current_job s ! 0) = Some x \<longrightarrow> wait_time x = 0)
      \<and> cores_current_job s ! 0 \<notin> id_job ` set (job_queue s)
      \<and> (case job_queue s of [] \<Rightarrow> D + d = a + v | j1 # rest \<Rightarrow> D = arrival_time j1)"
    if "type_ev e = DEPARTURE"
  proof (cases "cores_busy s ! 0")
    case False
    with server have "filter (\<lambda>e. type_ev e = DEPARTURE) (event_queue s) = []" by simp
    from empty_filter_member [OF this mem] that show ?thesis by simp
  next
    case True
    with server obtain D j where
      dep: "filter (\<lambda>e. type_ev e = DEPARTURE) (event_queue s)
              = [Event_departure D (cores_current_job s ! 0) 0]"
      and rest: "active_jobs s (cores_current_job s ! 0) = Some j" "wait_time j = 0"
        "cores_current_job s ! 0 \<notin> id_job ` set (job_queue s)"
        "case job_queue s of [] \<Rightarrow> D + d = a + v | j1 # rest \<Rightarrow> D = arrival_time j1"
      by auto
    from single_filter_member [OF dep mem that]
    have "e = Event_departure D (cores_current_job s ! 0) 0" .
    with True dep rest show ?thesis by (intro exI [of _ D]) simp
  qed
  from inv mem step show ?thesis
  proof (cases rule: process_event_cases)
    case served
    from free_core [OF served(2)] have f: "find_free_core s = 0" and idle: "\<not> cores_busy s ! 0"
      by simp_all
    from idle server have none: "filter (\<lambda>e. type_ev e = DEPARTURE) (event_queue s) = []"
      and empty: "job_queue s = []" by simp_all
    note ev = arrival_event [OF served(1)]
    let ?j = "(Job_new (next_job_id s) a v)\<lparr>start_time := a\<rparr>"
    have fields: "num_cores s' = 1" "buffer_capacity s' = -1"
      "cores_busy s' = (cores_busy s)[0 := True]"
      "cores_current_job s' = (cores_current_job s)[0 := next_job_id s]"
      "kind (arrival_generator s') = Deterministic d"
      "kind (service_generator s') = Deterministic v"
      "wait_times s' = wait_times s"
      "next_job_id s' = next_job_id s + 1"
      "job_queue s' = []"
      "active_jobs s' = (active_jobs s)(next_job_id s \<mapsto> ?j)"
      by (simp_all add: served(3) schedule_next_arrival_alt gen f cores cap kinds ev(2) empty)
    have events: "filter (\<lambda>e. type_ev e = ARRIVAL) (event_queue s') = [Event_arrival (a + d)]"
      "filter (\<lambda>e. type_ev e = DEPARTURE) (event_queue s')
         = [Event_departure (a + v) (next_job_id s) 0]"
      using arr_rest served(1) none
      by (simp_all add: served(3) schedule_next_arrival_alt gen f ev(2) filter_remove1
            Event_arrival_def Event_departure_def)
    have w: "wait_time ?j = 0" by (simp add: wait_time_def Job_new_def)
    show ?thesis
      by (rule no_wait_inv_busy [where a = "a + d" and D = "a + v" and j = ?j])
         (simp_all add: fields events len waits w below_le)
  next
    case lost
    from lost(3) cap show ?thesis by (simp add: buffer_full_def)
  next
    case queued
    from no_core [OF queued(2)] have busy: "cores_busy s ! 0" .
    with server obtain D j where
      dep: "filter (\<lambda>e. type_ev e = DEPARTURE) (event_queue s)
              = [Event_departure D (cores_current_job s ! 0) 0]"
      and job: "active_jobs s (cores_current_job s ! 0) = Some j" "wait_time j = 0"
      and apart: "cores_current_job s ! 0 \<notin> id_job ` set (job_queue s)"
      and due: "case job_queue s of [] \<Rightarrow> D + d = a + v | j1 # rest \<Rightarrow> D = arrival_time j1"
      by auto
    note ev = arrival_event [OF queued(1)]
    let ?j = "Job_new (next_job_id s) a v"
    have idj: "\<And>k t x. id_job (Job_new k t x) = k"
      "\<And>k t x. arrival_time (Job_new k t x) = t"
      "\<And>k t x. service_time (Job_new k t x) = x"
      by (simp_all add: Job_new_def)
    from dep have "Event_departure D (cores_current_job s ! 0) 0
                   \<in> set (filter (\<lambda>e. type_ev e = DEPARTURE) (event_queue s))" by simp
    then have "Event_departure D (cores_current_job s ! 0) 0 \<in> set (event_queue s)" by simp
    with least ev(2) have early: "a \<le> D" by (auto simp: Event_departure_def)
    from job(1) new have served_old: "cores_current_job s ! 0 \<noteq> next_job_id s" by auto
    have fields: "num_cores s' = 1" "buffer_capacity s' = -1"
      "cores_busy s' = cores_busy s"
      "cores_current_job s' = cores_current_job s"
      "kind (arrival_generator s') = Deterministic d"
      "kind (service_generator s') = Deterministic v"
      "wait_times s' = wait_times s"
      "next_job_id s' = next_job_id s + 1"
      "job_queue s' = job_queue s @ [?j]"
      "active_jobs s' = (active_jobs s)(next_job_id s \<mapsto> ?j)"
      by (simp_all add: queued(4) schedule_next_arrival_alt gen cores cap kinds ev(2))
    have "filter (\<lambda>e. type_ev e = DEPARTURE) (remove1 e (event_queue s))
          = filter (\<lambda>e. type_ev e = DEPARTURE) (event_queue s)"
      using queued(1) by (simp add: filter_remove1 remove1_idem)
    with dep arr_rest queued(1)
    have events: "filter (\<lambda>e. type_ev e = ARRIVAL) (event_queue s') = [Event_arrival (a + d)]"
      "filter (\<lambda>e. type_ev e = DEPARTURE) (event_queue s')
         = [Event_departure D (cores_current_job s ! 0) 0]"
      by (simp_all add: queued(4) schedule_next_arrival_alt gen ev(2) Event_arrival_def)
    have same_rate: "v = d" and front: "D = arrival_time (hd (job_queue s @ [?j]))"
    proof -
      show "v = d"
      proof (cases "job_queue s")
        case Nil
        with due have "D + d = a + v" by simp
        with early dv show ?thesis by simp
      next
        case (Cons j1 rest)
        with tail show ?thesis by simp
      qed
      show "D = arrival_time (hd (job_queue s @ [?j]))"
      proof (cases "job_queue s")
        case Nil
        with due have "D + d = a + v" by simp
        with early dv Nil show ?thesis by (simp add: idj)
      next
        case (Cons j1 rest)
        with due show ?thesis by simp
      qed
    qed
    have chain': "arrivals_chain d (job_queue s @ [?j])"
      using chain tail by (intro arrivals_chain_append) (simp_all add: idj)
    have dist': "distinct (map id_job (job_queue s @ [?j]))"
      using qdist queued_old by (auto simp: idj)
    have stored': "\<forall>x \<in> set (job_queue s @ [?j]).
                     ((active_jobs s)(next_job_id s \<mapsto> ?j)) (id_job x) = Some x
                     \<and> service_time x = v"
    proof
      fix x assume "x \<in> set (job_queue s @ [?j])"
      then consider "x \<in> set (job_queue s)" | "x = ?j" by auto
      then show "((active_jobs s)(next_job_id s \<mapsto> ?j)) (id_job x) = Some x
                     \<and> service_time x = v"
      proof cases
        case 1
        then have "id_job x \<in> id_job ` set (job_queue s)" by (rule imageI)
        with queued_old have "id_job x \<noteq> next_job_id s" by auto
        with 1 stored show ?thesis by simp
      next
        case 2
        then show ?thesis by (simp add: idj)
      qed
    qed
    have apart': "cores_current_job s ! 0 \<notin> id_job ` set (job_queue s @ [?j])"
      using apart served_old by (auto simp: idj)
    have due': "case job_queue s @ [?j] of [] \<Rightarrow> D + d = a + d + v | j1 # rest \<Rightarrow> D = arrival_time j1"
      using front by (cases "job_queue s") simp_all
    have tail': "job_queue s @ [?j] \<noteq> [] \<longrightarrow>
                   a + d = arrival_time (last (job_queue s @ [?j])) + d \<and> v = d"
      using same_rate by (simp add: idj)
    show ?thesis
    proof (rule no_wait_inv_busy [where a = "a + d" and D = D and j = j])
      show "\<forall>x \<in> set (job_queue s'). active_jobs s' (id_job x) = Some x \<and> service_time x = v"
        unfolding fields by (rule stored')
      show "distinct (map id_job (job_queue s'))" unfolding fields by (rule dist')
      show "arrivals_chain d (job_queue s')" unfolding fields by (rule chain')
      show "job_queue s' \<noteq> [] \<longrightarrow> a + d = arrival_time (last (job_queue s')) + d \<and> v = d"
        unfolding fields by (rule tail')
      show "cores_current_job s' ! 0 \<notin> id_job ` set (job_queue s')"
        unfolding fields by (rule apart')
      show "case job_queue s' of [] \<Rightarrow> D + d = a + d + v | j1 # rest \<Rightarrow> D = arrival_time j1"
        unfolding fields by (rule due')
      show "active_jobs s' (cores_current_job s' ! 0) = Some j"
        using job(1) served_old by (simp add: fields)
    qed (simp_all add: fields events len waits below_le busy job)
  next
    case (idle j)
    from dep_event [OF idle(1)] obtain D where
      busy: "cores_busy s ! 0" and e: "e = Event_departure D (cores_current_job s ! 0) 0"
      and dep: "filter (\<lambda>e. type_ev e = DEPARTURE) (event_queue s) = [e]"
      and w: "\<And>x. active_jobs s (cores_current_job s ! 0) = Some x \<Longrightarrow> wait_time x = 0"
      by blast
    from e have ids: "job_id e = cores_current_job s ! 0" "core_id e = 0" "time e = D"
      by (simp_all add: Event_departure_def)
    from idle(2) w have w0: "wait_time j = 0" by (simp add: ids)
    have fields: "num_cores s' = 1" "buffer_capacity s' = -1"
      "cores_busy s' = (cores_busy s)[0 := False]"
      "length (cores_current_job s') = 1"
      "kind (arrival_generator s') = Deterministic d"
      "kind (service_generator s') = Deterministic v"
      "wait_times s' = wait_times s @ [0]"
      "next_job_id s' = next_job_id s"
      "job_queue s' = []"
      "active_jobs s' = (active_jobs s)(job_id e := None)"
      by (simp_all add: idle(4) idle(3) cores cap kinds ids len w0)
    have evq: "event_queue s' = remove1 e (event_queue s)"
      by (simp add: idle(4))
    from arr_rest idle(1)
    have arr': "filter (\<lambda>e. type_ev e = ARRIVAL) (remove1 e (event_queue s)) = [Event_arrival a]"
      by simp
    from dep
    have dep': "filter (\<lambda>e. type_ev e = DEPARTURE) (remove1 e (event_queue s)) = []"
      by (simp add: filter_remove1)
    have events: "filter (\<lambda>e. type_ev e = ARRIVAL) (event_queue s') = [Event_arrival a]"
      "filter (\<lambda>e. type_ev e = DEPARTURE) (event_queue s') = []"
      by (simp_all add: evq arr' dep')
    show ?thesis
      using below
      by (intro no_wait_inv_idle [where a = a])
         (auto simp: fields events len waits)
  next
    case (next_job j nj rest stored')
    from dep_event [OF next_job(1)] obtain D where
      busy: "cores_busy s ! 0" and e: "e = Event_departure D (cores_current_job s ! 0) 0"
      and dep: "filter (\<lambda>e. type_ev e = DEPARTURE) (event_queue s) = [e]"
      and w: "\<And>x. active_jobs s (cores_current_job s ! 0) = Some x \<Longrightarrow> wait_time x = 0"
      and apart: "cores_current_job s ! 0 \<notin> id_job ` set (job_queue s)"
      and due: "case job_queue s of [] \<Rightarrow> D + d = a + v | j1 # rest \<Rightarrow> D = arrival_time j1"
      by blast
    from e have ids: "job_id e = cores_current_job s ! 0" "core_id e = 0" "time e = D"
      by (simp_all add: Event_departure_def)
    from next_job(2) w have w0: "wait_time j = 0" by (simp add: ids)
    from stored next_job(3) next_job(5) have same: "stored' = nj" and rate: "service_time nj = v"
      by simp_all
    from due next_job(3) have start: "D = arrival_time nj" by simp
    from tail next_job(3) have vd: "v = d" and last: "a = arrival_time (last (nj # rest)) + d"
      by simp_all
    let ?n = "nj\<lparr>start_time := D\<rparr>"
    have fields: "num_cores s' = 1" "buffer_capacity s' = -1"
      "cores_busy s' = (cores_busy s)[0 := True]"
      "cores_current_job s' = (cores_current_job s)[0 := id_job nj]"
      "kind (arrival_generator s') = Deterministic d"
      "kind (service_generator s') = Deterministic v"
      "wait_times s' = wait_times s @ [0]"
      "next_job_id s' = next_job_id s"
      "job_queue s' = rest"
      "active_jobs s' = (active_jobs s)(job_id e := None, id_job nj \<mapsto> ?n)"
      by (simp_all add: next_job(7) cores cap kinds ids len w0 same rate)
    have evq: "event_queue s' = remove1 e (event_queue s) @ [Event_departure (D + v) (id_job nj) 0]"
      by (simp add: next_job(7) ids same rate)
    from arr_rest next_job(1)
    have arr': "filter (\<lambda>e. type_ev e = ARRIVAL) (remove1 e (event_queue s)) = [Event_arrival a]"
      by simp
    from dep
    have dep': "filter (\<lambda>e. type_ev e = DEPARTURE) (remove1 e (event_queue s)) = []"
      by (simp add: filter_remove1)
    have events: "filter (\<lambda>e. type_ev e = ARRIVAL) (event_queue s') = [Event_arrival a]"
      "filter (\<lambda>e. type_ev e = DEPARTURE) (event_queue s')
         = [Event_departure (D + v) (id_job nj) 0]"
      by (simp_all add: evq arr' dep' Event_departure_def)
    from qdist next_job(3) have rest_ids: "id_job nj \<notin> id_job ` set rest"
      "distinct (map id_job rest)" by simp_all
    have wn: "wait_time ?n = 0" by (simp add: wait_time_def start)
    have stored_rest: "\<forall>x \<in> set rest.
        ((active_jobs s)(job_id e := None, id_job nj \<mapsto> ?n)) (id_job x) = Some x
        \<and> service_time x = v"
    proof
      fix x assume x: "x \<in> set rest"
      then have "id_job x \<in> id_job ` set rest" by (rule imageI)
      with rest_ids(1) have ne1: "id_job x \<noteq> id_job nj" by auto
      from x next_job(3) have xq: "x \<in> set (job_queue s)" by simp
      then have "id_job x \<in> id_job ` set (job_queue s)" by (rule imageI)
      with apart have ne2: "id_job x \<noteq> job_id e" by (auto simp: ids)
      from xq stored ne1 ne2
      show "((active_jobs s)(job_id e := None, id_job nj \<mapsto> ?n)) (id_job x) = Some x
        \<and> service_time x = v" by simp
    qed
    have due': "case rest of [] \<Rightarrow> D + v + d = a + v | j1 # r \<Rightarrow> D + v = arrival_time j1"
    proof (cases rest)
      case Nil
      with last start show ?thesis by simp
    next
      case (Cons j2 r)
      with chain next_job(3) have "arrival_time j2 = arrival_time nj + d" by simp
      with Cons start vd show ?thesis by simp
    qed
    have tail': "rest \<noteq> [] \<longrightarrow> a = arrival_time (last rest) + d \<and> v = d"
      using last vd by simp
    show ?thesis
    proof (rule no_wait_inv_busy [where a = a and D = "D + v" and j = ?n])
      show "\<forall>x \<in> set (job_queue s'). active_jobs s' (id_job x) = Some x \<and> service_time x = v"
        unfolding fields by (rule stored_rest)
      show "distinct (map id_job (job_queue s'))" unfolding fields by (rule rest_ids)
      show "arrivals_chain d (job_queue s')"
        unfolding fields using chain next_job(3) by (simp add: arrivals_chain_tl)
      show "job_queue s' \<noteq> [] \<longrightarrow> a = arrival_time (last (job_queue s')) + d \<and> v = d"
        unfolding fields by (rule tail')
      show "cores_current_job s' ! 0 \<notin> id_job ` set (job_queue s')"
        using rest_ids(1) len by (simp add: fields)
      show "case job_queue s' of [] \<Rightarrow> D + v + d = a + v | j1 # rest \<Rightarrow> D + v = arrival_time j1"
        unfolding fields by (rule due')
      show "\<forall>k \<in> dom (active_jobs s'). k < next_job_id s'"
        using below next_job(5) by (auto simp: fields split: if_splits)
      show "wait_time ?n = 0" by (rule wn)
    qed (simp_all add: fields events len waits)
  qed
qed


lemma no_wait_boundary:
  assumes new: "Simulator_new arrival_gen service_gen 1 (-1) = Inr sim"
    and kinds: "kind arrival_gen = Deterministic d" "kind service_gen = Deterministic v"
    and dv: "v \<le> d" and reach: "event_boundary sim s"
  shows "no_wait_inv d v s"
  using reach
proof (induction rule: event_boundary.induct)
  case start
  from new kinds show ?case by (rule no_wait_start)
next
  case (step s e s')
  from consistent_boundary [OF configured_new [OF new] step.hyps(1)] step.IH dv
    step.hyps(2) step.hyps(3) step.hyps(4)
  show ?case by (rule no_wait_step)
qed

lemma avg_wait_time_final [simp]: "avg_wait_time (update_busy_statistics s) = avg_wait_time s"
  by (simp add: avg_wait_time_def)

text \<open>
  C4, as the code has it. Take an engine constructed with a \<open>Deterministic(d)\<close> arrival
  generator, a \<open>Deterministic(v)\<close> service generator, one core and an unbounded buffer
  (capacity \<open>-1\<close>), all of whose timestamps are finite: the numbers are read at type
  \<open>real\<close>, so \<open>d\<close> and \<open>v\<close> are finite and no sum leaves the finite numbers. If
  \<open>v \<le> d\<close> then \<open>run\<close> and \<open>run_until_jobs\<close> return, and \<open>avg_wait_time\<close> is
  exactly 0 on the engine they return, as it is at every event boundary. This holds for
  every choice the event heap makes among events of equal time, so also when \<open>d = v\<close>
  and an arrival is processed before the departure at the same timestamp: the job is
  buffered, and it starts at that same timestamp, which is its arrival time.
\<close>

theorem deterministic_arrivals_never_wait:
  fixes d v :: real and sim :: "real Simulator"
  assumes arrival: "DeterministicGenerator d = Inr arrival_gen"
    and service: "DeterministicGenerator v = Inr service_gen"
    and new: "Simulator_new arrival_gen service_gen 1 (-1) = Inr sim"
    and dv: "v \<le> d" and pick: "top_ok pick"
  shows "(\<exists>s'. run pick simulation_time sim = Inr s' \<and> avg_wait_time s' = 0)
       \<and> (\<exists>s'. run_until_jobs pick jobs_to_process sim = Inr s' \<and> avg_wait_time s' = 0)
       \<and> (\<forall>s. event_boundary sim s \<longrightarrow> avg_wait_time s = 0)"
proof -
  from arrival service have kinds: "kind arrival_gen = Deterministic d"
    "kind service_gen = Deterministic v"
    by (auto simp: DeterministicGenerator_def)
  have at: "avg_wait_time s = 0" if "event_boundary sim s" for s
    using no_wait_boundary [OF new kinds dv that] by (rule no_wait_avg)
  note conf = configured_new [OF new]
  from run_boundary [OF pick conf, of simulation_time] obtain s1 where
    s1: "event_boundary sim s1" "run pick simulation_time sim = Inr (update_busy_statistics s1)"
    by blast
  from run_until_jobs_boundary [OF pick conf, of jobs_to_process] obtain s2 where
    s2: "event_boundary sim s2"
      "run_until_jobs pick jobs_to_process sim = Inr (update_busy_statistics s2)"
    by blast
  from at [OF s1(1)] s1(2) at [OF s2(1)] s2(2) at show ?thesis
    by simp
qed

theorem deterministic_arrivals_never_wait_witness:
  "DeterministicGenerator (2::real) = Inr (det_gen 2)
   \<and> Simulator_new (det_gen (2::real)) (det_gen 2) 1 (-1) = Inr (single_server 2 2 (-1))
   \<and> (2::real) \<le> 2 \<and> top_ok (first_earliest :: real tie_break)
   \<and> (\<exists>s'. run first_earliest 7 (single_server (2::real) 2 (-1)) = Inr s'
          \<and> avg_wait_time s' = 0)
   \<and> (\<exists>s'. run_until_jobs first_earliest 3 (single_server (2::real) 2 (-1)) = Inr s'
          \<and> avg_wait_time s' = 0)"
  using deterministic_arrivals_never_wait [OF det_gen_new [of 2] det_gen_new [of 2]
          single_server_new [of 2 2 "-1"] _ first_earliest_ok,
          where simulation_time = 7 and jobs_to_process = 3]
  by (simp add: det_gen_new single_server_new first_earliest_ok)

text \<open>
  C4 as stated fails where a timestamp is infinite. \<open>Deterministic(+infinity)\<close> is
  constructed, no parameter being checked, and \<open>1 \<le> +infinity\<close>. The first arrival is
  due at \<open>0 + infinity\<close>; its job arrives and starts at \<open>+infinity\<close>, and its departure,
  due at \<open>infinity + 1 = infinity\<close>, is pushed before the next arrival, which is due at
  \<open>+infinity\<close> too, and stays at the top of the heap. At the departure \<open>wait_time()\<close>
  computes \<open>infinity - infinity\<close>, which is NaN, and after \<open>run_until_jobs(1)\<close> the
  recorded waits are \<open>[NaN]\<close> and \<open>avg_wait_time()\<close> returns NaN.
\<close>

theorem infinite_interarrival_time_gives_nan:
  "DeterministicGenerator PInf = Inr (det_gen PInf)
   \<and> DeterministicGenerator (Finite 1) = Inr (det_gen (Finite 1))
   \<and> Simulator_new (det_gen PInf) (det_gen (Finite 1)) 1 (-1)
       = Inr (single_server PInf (Finite 1) (-1))
   \<and> Finite 1 \<le> PInf
   \<and> wait_time \<lparr>id_job = 0, arrival_time = PInf, service_time = Finite 1,
                  start_time = PInf, finish_time = PInf\<rparr> = NaN
   \<and> map_sum id wait_times
         (run_until_jobs first_earliest 1 (single_server PInf (Finite 1) (-1))) = Inr [NaN]
   \<and> map_sum id avg_wait_time
         (run_until_jobs first_earliest 1 (single_server PInf (Finite 1) (-1))) = Inr NaN
   \<and> NaN \<noteq> (0 :: double)"
proof (intro conjI)
  show "DeterministicGenerator PInf = Inr (det_gen PInf)"
    and "DeterministicGenerator (Finite 1) = Inr (det_gen (Finite 1))"
    by (rule det_gen_new)+
  show "Simulator_new (det_gen PInf) (det_gen (Finite 1)) 1 (-1)
        = Inr (single_server PInf (Finite 1) (-1))"
    by (rule single_server_new)
  show "Finite 1 \<le> PInf"
    by simp
  show "wait_time \<lparr>id_job = 0, arrival_time = PInf, service_time = Finite 1,
                   start_time = PInf, finish_time = PInf\<rparr> = NaN"
    by code_simp
  show "map_sum id wait_times
          (run_until_jobs first_earliest 1 (single_server PInf (Finite 1) (-1))) = Inr [NaN]"
    by code_simp
  show "map_sum id avg_wait_time
          (run_until_jobs first_earliest 1 (single_server PInf (Finite 1) (-1))) = Inr NaN"
    by code_simp
  show "NaN \<noteq> (0 :: double)"
    by (simp add: zero_double_def)
qed

end
